theory Spec2Isabelle
  imports Main "HOL-Library.Sublist" "HOL-Library.AList"
begin

section \<open>Path algebra (path.ts)\<close>

text \<open>
  A path is a \<open>string[]\<close>; JavaScript strings are modelled as \<open>string\<close>
  (lists of characters), arrays as lists. \<open>res.push(p)\<close> appends at the end of the
  list and \<open>res.pop()\<close> removes the last element.
\<close>

definition ROOT_NAME :: string where
  "ROOT_NAME = []"

definition PATH_SEPERATOR :: char where
  "PATH_SEPERATOR = CHR ''/''"

text \<open>
  \<open>String.prototype.split\<close> with a one-character separator: the pieces between the
  occurrences of the separator, so the empty string gives one empty piece.
\<close>

fun split :: "char \<Rightarrow> string \<Rightarrow> string list" where
  "split c [] = [[]]"
| "split c (x # xs) =
     (if x = c then [] # split c xs
      else (case split c xs of
              [] \<Rightarrow> [[x]]
            | w # ws \<Rightarrow> (x # w) # ws))"

text \<open>
  \<open>toArray\<close>: split at the separator, then drop one trailing empty piece
  (\<open>arr.at(-1) === ""\<close>, \<open>arr.pop()\<close>).
\<close>

definition toArray :: "string \<Rightarrow> string list" where
  "toArray s =
     (let arr = split PATH_SEPERATOR s
      in if arr \<noteq> [] \<and> last arr = [] then butlast arr else arr)"

text \<open>The three local variables of \<open>normalize\<close>.\<close>

record norm_state =
  res :: "string list"
  segCount :: nat
  isAbsolute :: bool

text \<open>
  The body of the \<open>for\<close> loop of \<open>normalize\<close> for one element \<open>p = path[i]\<close>.
  \<open>Inl r\<close> is the early \<open>return r\<close>; \<open>Inr s\<close> is the state at the end of the
  iteration. \<open>!p\<close> holds for the empty string.
\<close>

definition normalize_body :: "bool \<Rightarrow> nat \<Rightarrow> string \<Rightarrow> norm_state \<Rightarrow> string list + norm_state" where
  "normalize_body allowUpstream i p s =
     (if i = 0 \<and> p = ROOT_NAME then Inr (s\<lparr>isAbsolute := True, res := res s @ [p]\<rparr>)
      else if p = [] \<or> p = ''.'' then Inr s
      else if p = ''..'' then
        (if isAbsolute s \<and> length (res s) > 1 then Inr (s\<lparr>res := butlast (res s)\<rparr>)
         else if \<not> isAbsolute s \<and> allowUpstream then
           (if segCount s > 0
            then Inr (s\<lparr>res := butlast (res s), segCount := segCount s - 1\<rparr>)
            else Inr (s\<lparr>res := res s @ [''..'']\<rparr>))
         else if \<not> isAbsolute s \<and> length (res s) > 0 then Inr (s\<lparr>res := butlast (res s)\<rparr>)
         else if \<not> isAbsolute s then Inl []
         else Inr s)
      else Inr (s\<lparr>res := res s @ [p], segCount := segCount s + 1\<rparr>))"

text \<open>
  The loop \<open>for (i = 0; i <= l; i++)\<close> over the elements from index \<open>i\<close> on. The
  last pass, \<open>i = l\<close>, reads \<open>path[l]\<close>, which is \<open>undefined\<close>: it is not equal to
  \<open>ROOT_NAME\<close> and \<open>!p\<close> holds, so the pass changes nothing; it is the empty-list
  case here.
\<close>

fun normalize_loop :: "bool \<Rightarrow> nat \<Rightarrow> string list \<Rightarrow> norm_state \<Rightarrow> string list + norm_state" where
  "normalize_loop allowUpstream i [] s = Inr s"
| "normalize_loop allowUpstream i (p # ps) s =
     (case normalize_body allowUpstream i p s of
        Inl r \<Rightarrow> Inl r
      | Inr s' \<Rightarrow> normalize_loop allowUpstream (Suc i) ps s')"

definition normalize :: "string list \<Rightarrow> bool \<Rightarrow> string list" where
  "normalize pth allowUpstream =
     (case normalize_loop allowUpstream 0 pth \<lparr>res = [], segCount = 0, isAbsolute = False\<rparr> of
        Inl r \<Rightarrow> r
      | Inr s \<Rightarrow> res s)"

text \<open>
  \<open>resolve(...args)\<close>. The loop runs over the arguments from the last to the first
  while \<open>resolvedAbsolute\<close> is false; \<open>resolve_loop\<close> takes the arguments still to
  visit, last first.
\<close>

fun resolve_loop :: "string list list \<Rightarrow> string list \<Rightarrow> bool \<Rightarrow> string list" where
  "resolve_loop [] resolvedPath resolvedAbsolute = resolvedPath"
| "resolve_loop (pth # rest) resolvedPath resolvedAbsolute =
     (if resolvedAbsolute then resolvedPath
      else (case pth of
              [] \<Rightarrow> resolve_loop rest resolvedPath resolvedAbsolute
            | p0 # _ \<Rightarrow> resolve_loop rest (pth @ resolvedPath) (p0 = ROOT_NAME)))"

definition resolve :: "string list list \<Rightarrow> string list" where
  "resolve args =
     (let resolvedPath = normalize (resolve_loop (rev args) [] False) True
      in if length resolvedPath = 0 then [''.''] else resolvedPath)"

definition toString :: "string list \<Rightarrow> string" where
  "toString pth =
     (if pth \<noteq> [] \<and> hd pth = ROOT_NAME \<and> length pth = 1 then [PATH_SEPERATOR]
      else concat (case pth of [] \<Rightarrow> [] | p # ps \<Rightarrow> p # map (\<lambda>q. PATH_SEPERATOR # q) ps))"

section \<open>The storage backend\<close>

text \<open>
  The navigator calls the browser's File System API, which is not part of the
  repository. It is modelled after the File System standard: a handle is a locator, the
  list of names leading from the backend's root to the entry; \<open>isSameEntry\<close> compares
  locators; the storage is a table from locators to entries.
\<close>

datatype error = NotFoundError | TypeMismatchError | TypeError

datatype entry = Directory | File string

type_synonym locator = "string list"

type_synonym storage = "(locator \<times> entry) list"

datatype fs_handle = DirectoryHandle locator | FileHandle locator

definition valid_name :: "string \<Rightarrow> bool" where
  "valid_name n \<longleftrightarrow> n \<noteq> [] \<and> n \<noteq> ''.'' \<and> n \<noteq> ''..'' \<and> CHR ''/'' \<notin> set n"

definition getDirectoryHandle :: "locator \<Rightarrow> string \<Rightarrow> bool \<Rightarrow> storage \<Rightarrow> error + (locator \<times> storage)" where
  "getDirectoryHandle dir name create fs =
     (if \<not> valid_name name then Inl TypeError
      else if map_of fs dir \<noteq> Some Directory then Inl NotFoundError
      else (case map_of fs (dir @ [name]) of
              Some Directory \<Rightarrow> Inr (dir @ [name], fs)
            | Some (File c) \<Rightarrow> Inl TypeMismatchError
            | None \<Rightarrow>
                if create then Inr (dir @ [name], AList.update (dir @ [name]) Directory fs)
                else Inl NotFoundError))"

definition getFileHandle :: "locator \<Rightarrow> string \<Rightarrow> bool \<Rightarrow> storage \<Rightarrow> error + (locator \<times> storage)" where
  "getFileHandle dir name create fs =
     (if \<not> valid_name name then Inl TypeError
      else if map_of fs dir \<noteq> Some Directory then Inl NotFoundError
      else (case map_of fs (dir @ [name]) of
              Some (File c) \<Rightarrow> Inr (dir @ [name], fs)
            | Some Directory \<Rightarrow> Inl TypeMismatchError
            | None \<Rightarrow>
                if create then Inr (dir @ [name], AList.update (dir @ [name]) (File []) fs)
                else Inl NotFoundError))"

definition isSameEntry :: "locator \<Rightarrow> locator \<Rightarrow> bool" where
  "isSameEntry a b \<longleftrightarrow> a = b"

text \<open>\<open>dir.entries()\<close>: the name and the handle of every child of \<open>dir\<close>.\<close>

definition entries :: "locator \<Rightarrow> storage \<Rightarrow> error + (string \<times> fs_handle) list" where
  "entries dir fs =
     (if map_of fs dir \<noteq> Some Directory then Inl NotFoundError
      else Inr (map (\<lambda>(p, e). (last p, case e of Directory \<Rightarrow> DirectoryHandle p
                                                 | File c \<Rightarrow> FileHandle p))
                    (filter (\<lambda>(p, e). p \<noteq> [] \<and> butlast p = dir) fs)))"

section \<open>The navigator (LocalFS.ts)\<close>

text \<open>A path argument is a \<open>string\<close> or a \<open>string[]\<close>.\<close>

datatype path_arg = Str string | Arr "string list"

definition resolvePath :: "string list \<Rightarrow> path_arg \<Rightarrow> string list" where
  "resolvePath cd p = resolve [cd, (case p of Arr a \<Rightarrow> a | Str s \<Rightarrow> toArray s)]"

text \<open>
  \<open>isChildOrEqual\<close>: false when \<open>path\<close> is shorter than \<open>cd\<close>, false at the first
  index below \<open>cd.length\<close> where the two differ, true otherwise.
\<close>

definition isChildOrEqual :: "string list \<Rightarrow> string list \<Rightarrow> bool" where
  "isChildOrEqual cd pth =
     (if length pth < length cd then False
      else list_all (\<lambda>i. pth ! i = cd ! i) [0..<length cd])"

record current_dir =
  handle :: locator
  path :: "string list"

record LocalFS =
  rootHandle :: locator
  current :: current_dir

definition constructor :: "locator \<Rightarrow> LocalFS" where
  "constructor dirHandle =
     \<lparr>rootHandle = dirHandle, current = \<lparr>handle = dirHandle, path = [ROOT_NAME]\<rparr>\<rparr>"

text \<open>
  The loop of \<open>getDir\<close> and of \<open>getFile\<close>:
  \<open>for (i = ...; i < l; i++) dir = await dir.getDirectoryHandle(absolutePath[i], {create})\<close>.
  A rejected promise ends the walk with its error.
\<close>

function walk_loop :: "string list \<Rightarrow> bool \<Rightarrow> nat \<Rightarrow> nat \<Rightarrow> locator \<Rightarrow> storage \<Rightarrow> error + (locator \<times> storage)" where
  "walk_loop absolutePath create i l dir fs =
     (if i < l then
        (case getDirectoryHandle dir (absolutePath ! i) create fs of
           Inl e \<Rightarrow> Inl e
         | Inr (dir', fs') \<Rightarrow> walk_loop absolutePath create (Suc i) l dir' fs')
      else Inr (dir, fs))"
  by pat_completeness auto
termination
  by (relation "measure (\<lambda>(a, c, i, l, d, f). l - i)") auto

declare walk_loop.simps [simp del]

definition getDir :: "LocalFS \<Rightarrow> path_arg \<Rightarrow> bool \<Rightarrow> storage \<Rightarrow> error + (locator \<times> storage)" where
  "getDir this p create fs =
     (let absolutePath = resolvePath (path (current this)) p;
          isChild = isChildOrEqual (path (current this)) absolutePath;
          dir = (if isChild then handle (current this) else rootHandle this)
      in walk_loop absolutePath create
           (if isChild then length (path (current this)) else 1) (length absolutePath) dir fs)"

text \<open>
  \<open>getFile\<close>: the same loop with the bound \<open>l - 1\<close>, then
  \<open>dir.getFileHandle(absolutePath.at(-1), {create})\<close>.
\<close>

definition getFile :: "LocalFS \<Rightarrow> path_arg \<Rightarrow> bool \<Rightarrow> storage \<Rightarrow> error + (locator \<times> storage)" where
  "getFile this p create fs =
     (let absolutePath = resolvePath (path (current this)) p;
          isChild = isChildOrEqual (path (current this)) absolutePath;
          dir = (if isChild then handle (current this) else rootHandle this)
      in (case walk_loop absolutePath create
                (if isChild then length (path (current this)) else 1)
                (length absolutePath - 1) dir fs of
            Inl e \<Rightarrow> Inl e
          | Inr (dir', fs') \<Rightarrow> getFileHandle dir' (last absolutePath) create fs'))"

text \<open>
  \<open>cd\<close> returns the result, the navigator afterwards and the storage afterwards. When
  \<open>getDir\<close> rejects, neither assignment is reached.
\<close>

definition cd :: "LocalFS \<Rightarrow> path_arg \<Rightarrow> storage \<Rightarrow> (error + locator) \<times> LocalFS \<times> storage" where
  "cd this p fs =
     (case getDir this p False fs of
        Inl e \<Rightarrow> (Inl e, this, fs)
      | Inr (h, fs') \<Rightarrow>
          (let this1 = this\<lparr>current := (current this)\<lparr>handle := h\<rparr>\<rparr>;
               this2 = this1\<lparr>current := (current this1)\<lparr>path := resolvePath (path (current this1)) p\<rparr>\<rparr>
           in (Inr (handle (current this2)), this2, fs')))"

definition pwd :: "LocalFS \<Rightarrow> string" where
  "pwd this = toString (path (current this))"

text \<open>
  \<open>copyDirHelper\<close> starts one promise chain for every entry and awaits none of them
  before \<open>Promise.all\<close>, so the loops of all the directories being copied and all
  the chains started so far proceed interleaved. A \<open>task\<close> is one such activity, at
  the operation it is waiting for:
  \<^item> \<open>CopyDirHelper dir to originalTo yielded\<close>: the loop of
    \<open>copyDirHelper(dir, to, originalTo)\<close> at \<open>await entries.next()\<close>, with the names
    the iterator has yielded so far;
  \<^item> \<open>IsSameEntry handle name to originalTo\<close>: the chain of a directory entry at
    \<open>handle.isSameEntry(originalTo)\<close>;
  \<^item> \<open>GetDirectoryHandle handle name to originalTo\<close>: that chain at
    \<open>to.getDirectoryHandle(name, {create: true})\<close>;
  \<^item> \<open>GetFileHandle handle name to\<close>: the chain of a file entry at
    \<open>to.getFileHandle(name, {create: true})\<close>;
  \<^item> \<open>CopyFileHelper file to\<close>: \<open>copyFileHelper(file, to)\<close> at
    \<open>await file.getFile()\<close>;
  \<^item> \<open>PipeTo content to\<close>: \<open>copyFileHelper\<close> at
    \<open>readStream.pipeTo(await to.createWritable())\<close>, with the content read.
\<close>

datatype task =
    CopyDirHelper locator locator locator "string list"
  | IsSameEntry locator string locator locator
  | GetDirectoryHandle locator string locator locator
  | GetFileHandle locator string locator
  | CopyFileHelper locator locator
  | PipeTo string locator

text \<open>
  One operation of a task completes: the error if it rejects, the tasks that take the
  place of the task, and the storage afterwards. The iterator of a loop is live: it
  yields the first entry that the directory has now and that it has not yielded yet, and
  the loop ends when there is none. The loop then waits in \<open>Promise.all\<close> and does
  nothing more by itself. A rejection ends its own chain only; the other tasks stay.
  \<open>getFile()\<close> takes the content of the source file as it is then, and the writable
  of the destination file replaces its content when the pipe closes it.
\<close>

fun step_task :: "task \<Rightarrow> storage \<Rightarrow> error option \<times> task list \<times> storage" where
  "step_task (CopyDirHelper dir to originalTo yielded) fs =
     (case entries dir fs of
        Inl e \<Rightarrow> (Some e, [], fs)
      | Inr es \<Rightarrow>
          (case find (\<lambda>(name, h). name \<notin> set yielded) es of
             None \<Rightarrow> (None, [], fs)
           | Some (name, DirectoryHandle h) \<Rightarrow>
               (None, [CopyDirHelper dir to originalTo (name # yielded),
                       IsSameEntry h name to originalTo], fs)
           | Some (name, FileHandle h) \<Rightarrow>
               (None, [CopyDirHelper dir to originalTo (name # yielded),
                       GetFileHandle h name to], fs)))"
| "step_task (IsSameEntry h name to originalTo) fs =
     (if isSameEntry h originalTo then (None, [], fs)
      else (None, [GetDirectoryHandle h name to originalTo], fs))"
| "step_task (GetDirectoryHandle h name to originalTo) fs =
     (case getDirectoryHandle to name True fs of
        Inl e \<Rightarrow> (Some e, [], fs)
      | Inr (dir, fs') \<Rightarrow> (None, [CopyDirHelper h dir originalTo []], fs'))"
| "step_task (GetFileHandle h name to) fs =
     (case getFileHandle to name True fs of
        Inl e \<Rightarrow> (Some e, [], fs)
      | Inr (file, fs') \<Rightarrow> (None, [CopyFileHelper h file], fs'))"
| "step_task (CopyFileHelper file to) fs =
     (case map_of fs file of
        Some (File c) \<Rightarrow> (None, [PipeTo c to], fs)
      | _ \<Rightarrow> (Some NotFoundError, [], fs))"
| "step_task (PipeTo c to) fs =
     (case map_of fs to of
        Some (File c') \<Rightarrow> (None, [], AList.update to (File c) fs)
      | _ \<Rightarrow> (Some NotFoundError, [], fs))"

text \<open>
  The state of a copy: the storage, the tasks that are not finished, and the rejections
  so far. The promise of \<open>copyDir\<close> is rejected when a task has rejected and
  fulfilled when all tasks have finished without a rejection; when no task is pending,
  nothing started by the copy runs any more.
\<close>

record config =
  store :: storage
  pending :: "task list"
  rejected :: "error list"

text \<open>
  A schedule is a list of numbers: each picks the pending task whose operation completes
  next. Every interleaving of the tasks is the run of some schedule.
\<close>

definition step :: "nat \<Rightarrow> config \<Rightarrow> config" where
  "step k c =
     (if pending c = [] then c
      else (let i = k mod length (pending c)
            in (case step_task (pending c ! i) (store c) of
                  (err, ts, fs') \<Rightarrow>
                    \<lparr>store = fs',
                     pending = take i (pending c) @ ts @ drop (Suc i) (pending c),
                     rejected = rejected c @ (case err of None \<Rightarrow> [] | Some e \<Rightarrow> [e])\<rparr>)))"

fun run :: "nat list \<Rightarrow> config \<Rightarrow> config" where
  "run [] c = c"
| "run (k # ks) c = run ks (step k c)"

text \<open>
  An argument of \<open>copyDir\<close> is a path or a directory handle:
  \<open>path instanceof FileSystemDirectoryHandle ? path : await this.getDir(path, create)\<close>.
\<close>

datatype dir_arg = Path path_arg | Handle locator

definition handle_or_getDir :: "LocalFS \<Rightarrow> dir_arg \<Rightarrow> bool \<Rightarrow> storage \<Rightarrow> error + (locator \<times> storage)" where
  "handle_or_getDir this a create fs =
     (case a of Handle h \<Rightarrow> Inr (h, fs) | Path p \<Rightarrow> getDir this p create fs)"

text \<open>
  \<open>copyDir\<close> up to the call of \<open>copyDirHelper\<close>: a walk that fails rejects before
  anything is copied (\<open>Inl\<close>); the same entry on both sides leaves nothing to do;
  otherwise the copy starts with the loop of \<open>copyDirHelper(dir, to, to)\<close>.
\<close>

definition copyDir :: "LocalFS \<Rightarrow> dir_arg \<Rightarrow> dir_arg \<Rightarrow> storage \<Rightarrow> error + config" where
  "copyDir this src destination fs =
     (case handle_or_getDir this src False fs of
        Inl e \<Rightarrow> Inl e
      | Inr (dir, fs0) \<Rightarrow>
          (case handle_or_getDir this destination True fs0 of
             Inl e \<Rightarrow> Inl e
           | Inr (to, fs1) \<Rightarrow>
               if isSameEntry dir to then Inr \<lparr>store = fs1, pending = [], rejected = []\<rparr>
               else Inr \<lparr>store = fs1, pending = [CopyDirHelper dir to to []], rejected = []\<rparr>))"

section \<open>Predicates used in the statements and proofs\<close>

text \<open>A real segment is a name: not empty, not \<open>.\<close> and not \<open>..\<close>.\<close>

definition real_segment :: "string \<Rightarrow> bool" where
  "real_segment q \<longleftrightarrow> q \<noteq> [] \<and> q \<noteq> ''.'' \<and> q \<noteq> ''..''"

text \<open>
  The loop state of an absolute pass: the result begins with the root sentinel and holds
  real segments after it.
\<close>

definition abs_ok :: "norm_state \<Rightarrow> bool" where
  "abs_ok s \<longleftrightarrow> isAbsolute s \<and> (\<exists>r. res s = ROOT_NAME # r \<and> list_all real_segment r)"

text \<open>
  The loop state of a relative pass with \<open>allowUpstream\<close>: the result is a run of
  \<open>..\<close> followed by the real segments pushed and not yet popped, which \<open>segCount\<close>
  counts.
\<close>

definition up_ok :: "norm_state \<Rightarrow> bool" where
  "up_ok s \<longleftrightarrow> \<not> isAbsolute s \<and>
     (\<exists>k reals. res s = replicate k ''..'' @ reals \<and> ''..'' \<notin> set reals \<and> segCount s = length reals)"

text \<open>
  A traversal, as the specification describes it: each step requests a child directory
  by name from the directory reached so far.
\<close>

fun traverse :: "bool \<Rightarrow> locator \<Rightarrow> string list \<Rightarrow> storage \<Rightarrow> error + (locator \<times> storage)" where
  "traverse create dir [] fs = Inr (dir, fs)"
| "traverse create dir (name # names) fs =
     (case getDirectoryHandle dir name create fs of
        Inl e \<Rightarrow> Inl e
      | Inr (dir', fs') \<Rightarrow> traverse create dir' names fs')"

text \<open>
  An absolute normalized sequence: at least one element, the root sentinel first, and
  after it no empty segment, no \<open>.\<close> and no \<open>..\<close>.
\<close>

definition path_ok :: "string list \<Rightarrow> bool" where
  "path_ok p \<longleftrightarrow> 1 \<le> length p \<and> hd p = ROOT_NAME \<and>
     (\<forall>q \<in> set (tl p). q \<noteq> [] \<and> q \<noteq> ''.'' \<and> q \<noteq> ''..'')"

text \<open>
  The cached handle is the locator that the segments of the current path after the
  sentinel lead to, from the root handle.
\<close>

definition paired :: "LocalFS \<Rightarrow> bool" where
  "paired this \<longleftrightarrow> handle (current this) = rootHandle this @ tl (path (current this))"

text \<open>
  The public operations of \<open>LocalFS\<close>. The navigator after an operation:
  \<open>cd\<close> is the only method with an assignment to \<open>this.current\<close>, and no method
  assigns \<open>this.rootHandle\<close>. \<open>run_ops\<close> runs a sequence of operations, each
  against the storage as it is at that moment.
\<close>

datatype operation =
    GetDir path_arg bool | GetFile path_arg bool | Resolve path_arg | Cd path_arg | Pwd
  | Ls | Write | CopyFile | CopyDir dir_arg dir_arg

definition after_op :: "operation \<Rightarrow> LocalFS \<Rightarrow> storage \<Rightarrow> LocalFS" where
  "after_op opn this fs = (case opn of Cd p \<Rightarrow> fst (snd (cd this p fs)) | _ \<Rightarrow> this)"

fun run_ops :: "(operation \<times> storage) list \<Rightarrow> LocalFS \<Rightarrow> LocalFS" where
  "run_ops [] this = this"
| "run_ops ((opn, fs) # rest) this = run_ops rest (after_op opn this fs)"

text \<open>
  The part of the storage that is not strictly below \<open>orig\<close>; and, for the loop of a
  directory \<open>d\<close>, the number of entries of that part below \<open>d\<close> and not below a
  child of \<open>d\<close> that was yielded.
\<close>

definition fixed :: "locator \<Rightarrow> storage \<Rightarrow> storage" where
  "fixed orig fs = filter (\<lambda>(p, e). \<not> strict_prefix orig p) fs"

definition unvisited :: "locator \<Rightarrow> locator \<Rightarrow> string list \<Rightarrow> storage \<Rightarrow> nat" where
  "unvisited orig d ys fs =
     length (filter (\<lambda>(p, e). strict_prefix d p \<and> (\<forall>n \<in> set ys. \<not> prefix (d @ [n]) p))
               (fixed orig fs))"

text \<open>A bound on the operations that a task and the tasks it starts still complete.\<close>

fun weight :: "locator \<Rightarrow> storage \<Rightarrow> task \<Rightarrow> nat" where
  "weight orig fs (CopyDirHelper d t ot ys) = 1 + 5 * unvisited orig d ys fs"
| "weight orig fs (IsSameEntry h n t ot) = 3 + 5 * unvisited orig h [] fs"
| "weight orig fs (GetDirectoryHandle h n t ot) = 2 + 5 * unvisited orig h [] fs"
| "weight orig fs (GetFileHandle h n t) = 3"
| "weight orig fs (CopyFileHelper h f) = 2"
| "weight orig fs (PipeTo c f) = 1"

definition total :: "locator \<Rightarrow> config \<Rightarrow> nat" where
  "total orig c = sum_list (map (weight orig (store c)) (pending c))"

text \<open>
  A task of a copy into \<open>orig\<close> whose source is not \<open>orig\<close> or below it: it reads
  outside \<open>orig\<close> and writes below it.
\<close>

fun task_ok :: "locator \<Rightarrow> task \<Rightarrow> bool" where
  "task_ok orig (CopyDirHelper d t ot ys) \<longleftrightarrow> ot = orig \<and> \<not> prefix orig d \<and> prefix orig t"
| "task_ok orig (IsSameEntry h n t ot) \<longleftrightarrow> ot = orig \<and> \<not> strict_prefix orig h \<and> prefix orig t"
| "task_ok orig (GetDirectoryHandle h n t ot) \<longleftrightarrow> ot = orig \<and> \<not> prefix orig h \<and> prefix orig t"
| "task_ok orig (GetFileHandle h n t) \<longleftrightarrow> prefix orig t"
| "task_ok orig (CopyFileHelper h f) \<longleftrightarrow> strict_prefix orig f"
| "task_ok orig (PipeTo c f) \<longleftrightarrow> strict_prefix orig f"

definition tasks_ok :: "locator \<Rightarrow> config \<Rightarrow> bool" where
  "tasks_ok orig c \<longleftrightarrow> list_all (task_ok orig) (pending c)"

text \<open>
  The locators whose entry differs between two storages; and the locators \<open>to @ s\<close>
  that mirror a source \<open>dir @ s\<close> which is neither \<open>orig\<close> nor below it.
\<close>

definition changed :: "storage \<Rightarrow> storage \<Rightarrow> locator set" where
  "changed fs fs' = {k. map_of fs' k \<noteq> map_of fs k}"

definition mirror :: "locator \<Rightarrow> locator \<Rightarrow> locator \<Rightarrow> locator set" where
  "mirror dir to orig = {k. \<exists>s. s \<noteq> [] \<and> k = to @ s \<and> \<not> prefix orig (dir @ s)}"

text \<open>
  A storage in which no locator is listed twice and \<open>orig\<close> is a directory.
\<close>

definition storage_ok :: "locator \<Rightarrow> storage \<Rightarrow> bool" where
  "storage_ok orig fs \<longleftrightarrow> distinct (map fst fs) \<and> map_of fs orig = Some Directory"

text \<open>
  A task of the copy of \<open>dir\<close> into \<open>orig\<close> that writes only at a mirror locator: its
  source and its destination are at the same place below \<open>dir\<close> and below \<open>orig\<close>.
\<close>

fun task_mirror :: "locator \<Rightarrow> locator \<Rightarrow> task \<Rightarrow> bool" where
  "task_mirror dir orig (CopyDirHelper d t ot ys) \<longleftrightarrow> (\<exists>s. d = dir @ s \<and> t = orig @ s)"
| "task_mirror dir orig (IsSameEntry h n t ot) \<longleftrightarrow> (\<exists>s. h = dir @ s @ [n] \<and> t = orig @ s)"
| "task_mirror dir orig (GetDirectoryHandle h n t ot) \<longleftrightarrow> (\<exists>s. h = dir @ s @ [n] \<and> t = orig @ s)"
| "task_mirror dir orig (GetFileHandle h n t) \<longleftrightarrow>
     (\<exists>s. h = dir @ s @ [n] \<and> t = orig @ s \<and> \<not> prefix orig h)"
| "task_mirror dir orig (CopyFileHelper h f) \<longleftrightarrow> f \<in> mirror dir orig orig"
| "task_mirror dir orig (PipeTo c f) \<longleftrightarrow> f \<in> mirror dir orig orig"

text \<open>
  The state of a copy of \<open>dir\<close> into \<open>orig\<close>, started on the storage \<open>fs0\<close>, that has
  written at mirror locators only.
\<close>

definition mirrors :: "locator \<Rightarrow> locator \<Rightarrow> storage \<Rightarrow> config \<Rightarrow> bool" where
  "mirrors dir orig fs0 c \<longleftrightarrow>
     storage_ok orig (store c) \<and> changed fs0 (store c) \<subseteq> mirror dir orig orig
     \<and> list_all (task_ok orig) (pending c) \<and> list_all (task_mirror dir orig) (pending c)"

section \<open>Splitting\<close>

text \<open>
  C4 (as the code has it): splitting the empty string gives the empty sequence. The
  split yields the single piece \<open>""\<close>, which is then dropped as a trailing empty
  piece; the one-element sequence holding the root sentinel is the result for \<open>"/"\<close>.
\<close>

theorem toArray_empty: "toArray '''' = [] \<and> toArray ''/'' = [ROOT_NAME]"
  by (simp add: toArray_def PATH_SEPERATOR_def ROOT_NAME_def)

text \<open>C4 as stated, \<open>toArray("") == [""]\<close>, does not hold.\<close>

theorem toArray_empty_not_sentinel: "toArray '''' \<noteq> ['''']"
  by (simp add: toArray_def PATH_SEPERATOR_def)

section \<open>Normalization\<close>

lemma normalize_loop_append:
  "normalize_loop up i (xs @ ys) s =
     (case normalize_loop up i xs s of
        Inl r \<Rightarrow> Inl r
      | Inr s' \<Rightarrow> normalize_loop up (i + length xs) ys s')"
  by (induction xs arbitrary: i s) (auto split: sum.splits)

lemma list_all_butlast: "list_all P xs \<Longrightarrow> list_all P (butlast xs)"
  by (induction xs) auto

lemma normalize_body_abs:
  assumes "abs_ok s" "0 < i"
  shows "\<exists>s'. normalize_body up i p s = Inr s' \<and> abs_ok s'"
proof -
  from assms(1) obtain r where r: "isAbsolute s" "res s = ROOT_NAME # r" "list_all real_segment r"
    by (auto simp: abs_ok_def)
  show ?thesis
    using r assms(2)
    by (auto simp: normalize_body_def abs_ok_def real_segment_def list_all_butlast)
qed

lemma normalize_loop_abs:
  "abs_ok s \<Longrightarrow> 0 < i \<Longrightarrow> \<exists>s'. normalize_loop up i ps s = Inr s' \<and> abs_ok s'"
proof (induction ps arbitrary: i s)
  case Nil
  then show ?case by simp
next
  case (Cons p ps)
  from normalize_body_abs[OF Cons.prems] obtain s1
    where s1: "normalize_body up i p s = Inr s1" "abs_ok s1" by blast
  from Cons.IH[OF s1(2), of "Suc i"] s1(1) show ?case by simp
qed

lemma normalize_absolute_state:
  "\<exists>s'. normalize_loop up 0 (ROOT_NAME # ps) \<lparr>res = [], segCount = 0, isAbsolute = False\<rparr> = Inr s'
        \<and> abs_ok s'"
proof -
  have "abs_ok \<lparr>res = [ROOT_NAME], segCount = 0, isAbsolute = True\<rparr>"
    by (simp add: abs_ok_def)
  from normalize_loop_abs[OF this, of "Suc 0" up ps] show ?thesis
    by (simp add: normalize_body_def)
qed

lemma normalize_loop_index:
  "0 < i \<Longrightarrow> 0 < j \<Longrightarrow> normalize_loop up i ps s = normalize_loop up j ps s"
proof (induction ps arbitrary: i j s)
  case Nil
  show ?case by simp
next
  case (Cons p ps)
  from Cons.prems have b: "normalize_body up i p s = normalize_body up j p s"
    by (simp add: normalize_body_def)
  show ?case
  proof (cases "normalize_body up j p s")
    case (Inl r)
    with b show ?thesis by simp
  next
    case (Inr s')
    with b Cons.IH[of "Suc i" "Suc j" s'] show ?thesis by simp
  qed
qed

lemma normalize_sentinel_dotdot:
  assumes "pth \<noteq> []" and "hd pth = ROOT_NAME" and "normalize pth up = [ROOT_NAME]"
  shows "normalize (pth @ ''..'' # rest) up = normalize (pth @ rest) up"
proof -
  from assms(1,2) obtain ps where pth: "pth = ROOT_NAME # ps" by (cases pth) auto
  from normalize_absolute_state[of up ps] obtain s
    where s: "normalize_loop up 0 pth \<lparr>res = [], segCount = 0, isAbsolute = False\<rparr> = Inr s"
      and ok: "abs_ok s"
    by (auto simp: pth)
  from s assms(3) have r: "res s = [ROOT_NAME]" by (simp add: normalize_def)
  from ok r have "normalize_body up (length pth) ''..'' s = Inr s"
    by (simp add: normalize_body_def abs_ok_def ROOT_NAME_def)
  moreover have "normalize_loop up (Suc (length pth)) rest s = normalize_loop up (length pth) rest s"
    using assms(1) by (intro normalize_loop_index) simp_all
  ultimately show ?thesis
    using s by (simp add: normalize_def normalize_loop_append)
qed

text \<open>
  C2: for a sequence that begins with the root sentinel, and either value of
  \<open>allowUpstream\<close>, the result of \<open>normalize\<close> begins with the root sentinel, has
  length at least 1 and holds neither \<open>.\<close> nor \<open>..\<close>; a \<open>..\<close> that arrives when
  only the sentinel is left is dropped.
\<close>

theorem normalize_absolute:
  assumes "pth \<noteq> []" and "hd pth = ROOT_NAME"
  shows "hd (normalize pth allowUpstream) = ROOT_NAME
       \<and> 1 \<le> length (normalize pth allowUpstream)
       \<and> ''.'' \<notin> set (normalize pth allowUpstream)
       \<and> ''..'' \<notin> set (normalize pth allowUpstream)
       \<and> (normalize pth allowUpstream = [ROOT_NAME] \<longrightarrow>
            normalize (pth @ ''..'' # rest) allowUpstream = normalize (pth @ rest) allowUpstream)"
proof -
  from assms obtain ps where pth: "pth = ROOT_NAME # ps" by (cases pth) auto
  from normalize_absolute_state[of allowUpstream ps] obtain r
    where "normalize pth allowUpstream = ROOT_NAME # r" "list_all real_segment r"
    by (auto simp: normalize_def pth abs_ok_def)
  then have "hd (normalize pth allowUpstream) = ROOT_NAME
       \<and> 1 \<le> length (normalize pth allowUpstream)
       \<and> ''.'' \<notin> set (normalize pth allowUpstream)
       \<and> ''..'' \<notin> set (normalize pth allowUpstream)"
    by (auto simp: ROOT_NAME_def real_segment_def list_all_iff)
  with normalize_sentinel_dotdot[OF assms, of allowUpstream rest] show ?thesis
    by blast
qed

theorem normalize_absolute_witness:
  "hd (normalize [ROOT_NAME, ''a'', ''..'', ''..'', ''.'', ''b''] False) = ROOT_NAME
   \<and> 1 \<le> length (normalize [ROOT_NAME, ''a'', ''..'', ''..'', ''.'', ''b''] False)
   \<and> ''.'' \<notin> set (normalize [ROOT_NAME, ''a'', ''..'', ''..'', ''.'', ''b''] False)
   \<and> ''..'' \<notin> set (normalize [ROOT_NAME, ''a'', ''..'', ''..'', ''.'', ''b''] False)
   \<and> normalize ([ROOT_NAME, ''a'', ''..''] @ ''..'' # [''.'', ''b'']) False
     = normalize ([ROOT_NAME, ''a'', ''..''] @ [''.'', ''b'']) False"
proof -
  have n: "normalize [ROOT_NAME, ''a'', ''..''] False = [ROOT_NAME]"
    by (simp add: normalize_def normalize_body_def ROOT_NAME_def)
  show ?thesis
    using normalize_absolute[of "[ROOT_NAME, ''a'', ''..'', ''..'', ''.'', ''b'']" False]
      normalize_absolute[of "[ROOT_NAME, ''a'', ''..'']" False "[''.'', ''b'']"] n
    by simp
qed

lemma normalize_loop_real:
  "list_all real_segment ps \<Longrightarrow> 0 < i \<Longrightarrow>
   normalize_loop up i ps s = Inr (s\<lparr>res := res s @ ps, segCount := segCount s + length ps\<rparr>)"
proof (induction ps arbitrary: i s)
  case Nil
  then show ?case by simp
next
  case (Cons p ps)
  then show ?case
    by (simp add: normalize_body_def real_segment_def)
qed

text \<open>
  C3: \<open>normalize\<close> returns a normalized absolute sequence (root sentinel first, then
  no \<open>.\<close>, \<open>..\<close> or empty segment) unchanged, for either value of the flag.
\<close>

theorem normalize_idempotent:
  assumes "p \<noteq> []" and "hd p = ROOT_NAME"
    and "\<forall>q \<in> set (tl p). q \<noteq> ''.'' \<and> q \<noteq> ''..'' \<and> q \<noteq> []"
  shows "normalize p flag = p"
proof -
  from assms(1,2) obtain ps where p: "p = ROOT_NAME # ps" by (cases p) auto
  with assms(3) have "list_all real_segment ps"
    by (auto simp: list_all_iff real_segment_def)
  from normalize_loop_real[OF this, of "Suc 0" flag] show ?thesis
    by (simp add: normalize_def p normalize_body_def)
qed

theorem normalize_idempotent_witness:
  "normalize [ROOT_NAME, ''a'', ''b''] True = [ROOT_NAME, ''a'', ''b'']"
  using normalize_idempotent[of "[ROOT_NAME, ''a'', ''b'']" True]
  by (simp add: ROOT_NAME_def)


lemma normalize_body_relative:
  assumes "\<not> isAbsolute s" and "i = 0 \<longrightarrow> p \<noteq> ROOT_NAME"
    and "normalize_body up i p s = Inr s'"
  shows "\<not> isAbsolute s'"
  using assms by (auto simp: normalize_body_def split: if_splits)

lemma normalize_loop_relative:
  assumes "\<not> isAbsolute s" and "i = 0 \<longrightarrow> ps = [] \<or> hd ps \<noteq> ROOT_NAME"
    and "normalize_loop up i ps s = Inr s'"
  shows "\<not> isAbsolute s'"
  using assms
proof (induction ps arbitrary: i s)
  case Nil
  then show ?case by simp
next
  case (Cons p ps)
  from Cons.prems(3) obtain s1 where s1: "normalize_body up i p s = Inr s1"
    and rest: "normalize_loop up (Suc i) ps s1 = Inr s'"
    by (auto split: sum.splits)
  from Cons.prems(2) have "i = 0 \<longrightarrow> p \<noteq> ROOT_NAME" by simp
  from normalize_body_relative[OF Cons.prems(1) this s1] have "\<not> isAbsolute s1" .
  from Cons.IH[OF this _ rest] show ?case by simp
qed

text \<open>
  C5: with \<open>allowUpstream\<close> false, a relative sequence in which a \<open>..\<close> is processed
  while the accumulated result is empty (the loop has reached that \<open>..\<close>, after the
  prefix \<open>pre\<close>, in a state \<open>s\<close> with an empty \<open>res\<close>) normalizes to the empty
  sequence; so does \<open>./folder/../../../../file\<close>.
\<close>

theorem normalize_escape_fails:
  assumes "pre = [] \<or> hd pre \<noteq> ROOT_NAME"
    and "normalize_loop False 0 pre \<lparr>res = [], segCount = 0, isAbsolute = False\<rparr> = Inr s"
    and "res s = []"
  shows "normalize (pre @ ''..'' # post) False = []
       \<and> normalize (toArray ''./folder/../../../../file'') False = []"
proof -
  have "\<not> isAbsolute s"
    using normalize_loop_relative[OF _ _ assms(2)] assms(1) by simp
  with assms(3) have "normalize_body False (length pre) ''..'' s = Inl []"
    by (simp add: normalize_body_def ROOT_NAME_def)
  with assms(2) have "normalize (pre @ ''..'' # post) False = []"
    by (simp add: normalize_def normalize_loop_append)
  moreover have "normalize (toArray ''./folder/../../../../file'') False = []"
    by (simp add: normalize_def normalize_body_def toArray_def PATH_SEPERATOR_def ROOT_NAME_def)
  ultimately show ?thesis by simp
qed

theorem normalize_escape_fails_witness:
  "normalize ([''.'', ''folder'', ''..''] @ ''..'' # [''..'', ''..'', ''file'']) False = []"
  using normalize_escape_fails[of "[''.'', ''folder'', ''..'']"
      "\<lparr>res = [], segCount = Suc 0, isAbsolute = False\<rparr>" "[''..'', ''..'', ''file'']"]
  by (simp add: normalize_body_def ROOT_NAME_def)

lemma normalize_body_up:
  assumes "up_ok s" and "i = 0 \<longrightarrow> p \<noteq> ROOT_NAME"
  shows "\<exists>s'. normalize_body True i p s = Inr s' \<and> up_ok s'"
proof -
  from assms(1) obtain k reals where s: "\<not> isAbsolute s" "res s = replicate k ''..'' @ reals"
      "''..'' \<notin> set reals" "segCount s = length reals"
    by (auto simp: up_ok_def)
  consider (noop) "p = [] \<or> p = ''.''" | (up) "p = ''..''" "reals \<noteq> []" | (esc) "p = ''..''" "reals = []"
    | (push) "p \<noteq> []" "p \<noteq> ''.''" "p \<noteq> ''..''" by blast
  then show ?thesis
  proof cases
    case noop
    with assms show ?thesis by (auto simp: normalize_body_def ROOT_NAME_def)
  next
    case up
    have "up_ok (s\<lparr>res := butlast (res s), segCount := segCount s - 1\<rparr>)"
      unfolding up_ok_def using s up
      by (auto simp: butlast_append intro!: exI[of _ k] exI[of _ "butlast reals"] dest: in_set_butlastD)
    with s up show ?thesis by (simp add: normalize_body_def ROOT_NAME_def)
  next
    case esc
    have "up_ok (s\<lparr>res := res s @ [''..'']\<rparr>)"
      unfolding up_ok_def using s esc
      by (auto simp: replicate_append_same intro!: exI[of _ "Suc k"] exI[of _ "[]"])
    with s esc show ?thesis by (simp add: normalize_body_def ROOT_NAME_def)
  next
    case push
    have "up_ok (s\<lparr>res := res s @ [p], segCount := segCount s + 1\<rparr>)"
      unfolding up_ok_def using s push
      by (auto intro!: exI[of _ k] exI[of _ "reals @ [p]"])
    with s push show ?thesis by (simp add: normalize_body_def ROOT_NAME_def)
  qed
qed

lemma normalize_loop_up:
  assumes "up_ok s" and "i = 0 \<longrightarrow> ps = [] \<or> hd ps \<noteq> ROOT_NAME"
  shows "\<exists>s'. normalize_loop True i ps s = Inr s' \<and> up_ok s'"
  using assms
proof (induction ps arbitrary: i s)
  case Nil
  then show ?case by simp
next
  case (Cons p ps)
  from Cons.prems(2) have "i = 0 \<longrightarrow> p \<noteq> ROOT_NAME" by simp
  from normalize_body_up[OF Cons.prems(1) this] obtain s1
    where s1: "normalize_body True i p s = Inr s1" "up_ok s1" by blast
  from Cons.IH[OF s1(2), of "Suc i"] s1(1) show ?case by simp
qed

lemma up_ok_segCount:
  assumes "up_ok s"
  shows "0 < segCount s \<longleftrightarrow> res s \<noteq> [] \<and> last (res s) \<noteq> ''..''"
proof -
  from assms obtain k reals where s: "res s = replicate k ''..'' @ reals"
      "''..'' \<notin> set reals" "segCount s = length reals"
    by (auto simp: up_ok_def)
  show ?thesis
  proof (cases "reals = []")
    case True
    with s show ?thesis by (cases k) auto
  next
    case False
    then have "last reals \<in> set reals" by simp
    with s(2) have "last reals \<noteq> ''..''" by metis
    with s False show ?thesis by simp
  qed
qed

text \<open>
  C6: with \<open>allowUpstream\<close> true and a relative sequence, a \<open>..\<close> removes the last
  segment of the result so far when that is a real segment, and is appended otherwise;
  the result is a run of \<open>..\<close> followed by real segments; and
  \<open>./folder/../../../../file\<close> normalizes to \<open>../../../file\<close>.
\<close>

theorem normalize_upstream:
  assumes "xs = [] \<or> hd xs \<noteq> ROOT_NAME"
  shows "normalize (xs @ [''..'']) True =
           (if normalize xs True \<noteq> [] \<and> last (normalize xs True) \<noteq> ''..''
            then butlast (normalize xs True)
            else normalize xs True @ [''..''])
       \<and> (\<exists>k reals. normalize xs True = replicate k ''..'' @ reals \<and> ''..'' \<notin> set reals)
       \<and> normalize (toArray ''./folder/../../../../file'') True = toArray ''../../../file''"
proof -
  let ?init = "\<lparr>res = [], segCount = 0, isAbsolute = False\<rparr>"
  have init: "up_ok ?init" by (simp add: up_ok_def)
  from normalize_loop_up[OF init, of 0 xs] assms obtain s
    where s: "normalize_loop True 0 xs ?init = Inr s" "up_ok s" by auto
  then have nxs: "normalize xs True = res s" by (simp add: normalize_def)
  have body: "normalize_body True (length xs) ''..'' s =
      (if 0 < segCount s then Inr (s\<lparr>res := butlast (res s), segCount := segCount s - 1\<rparr>)
       else Inr (s\<lparr>res := res s @ [''..'']\<rparr>))"
    using s(2) by (simp add: normalize_body_def up_ok_def ROOT_NAME_def)
  have "normalize (xs @ [''..'']) True =
      (if 0 < segCount s then butlast (res s) else res s @ [''..''])"
    using s(1) body by (simp add: normalize_def normalize_loop_append)
  then have step: "normalize (xs @ [''..'']) True =
           (if normalize xs True \<noteq> [] \<and> last (normalize xs True) \<noteq> ''..''
            then butlast (normalize xs True)
            else normalize xs True @ [''..''])"
    using up_ok_segCount[OF s(2)] nxs by simp
  have shape: "\<exists>k reals. normalize xs True = replicate k ''..'' @ reals \<and> ''..'' \<notin> set reals"
    using s(2) nxs by (auto simp: up_ok_def)
  have inst: "normalize (toArray ''./folder/../../../../file'') True = toArray ''../../../file''"
    by (simp add: normalize_def normalize_body_def toArray_def PATH_SEPERATOR_def ROOT_NAME_def)
  from step shape inst show ?thesis by blast
qed

theorem normalize_upstream_witness:
  "normalize ([''.'', ''folder'', ''..'', ''..''] @ [''..'']) True = [''..'', ''..'']"
  using normalize_upstream[of "[''.'', ''folder'', ''..'', ''..'']"]
  by (simp add: normalize_def normalize_body_def ROOT_NAME_def)

section \<open>Walking directories\<close>

lemma path_ok_iff: "path_ok p \<longleftrightarrow> (\<exists>r. p = ROOT_NAME # r \<and> list_all real_segment r)"
  by (cases p) (auto simp: path_ok_def list_all_iff real_segment_def)

lemma isChildOrEqual_prefix: "isChildOrEqual cur pth \<longleftrightarrow> prefix cur pth"
proof
  assume "isChildOrEqual cur pth"
  then have len: "length cur \<le> length pth" and eq: "\<forall>i<length cur. pth ! i = cur ! i"
    by (auto simp: isChildOrEqual_def list_all_iff split: if_splits)
  then have "take (length cur) pth = cur"
    by (intro nth_equalityI) auto
  then show "prefix cur pth"
    using take_is_prefix[of "length cur" pth] by simp
next
  assume "prefix cur pth"
  then obtain zs where "pth = cur @ zs" by (auto simp: prefix_def)
  then show "isChildOrEqual cur pth"
    by (auto simp: isChildOrEqual_def list_all_iff nth_append)
qed

lemma walk_loop_traverse:
  "i \<le> l \<Longrightarrow> l \<le> length a \<Longrightarrow>
   walk_loop a create i l dir fs = traverse create dir (take (l - i) (drop i a)) fs"
proof (induction a create i l dir fs rule: walk_loop.induct)
  case (1 a create i l dir fs)
  show ?case
  proof (cases "i < l")
    case False
    with "1.prems" show ?thesis by (subst walk_loop.simps) simp
  next
    case True
    with "1.prems" have "i < length a" by simp
    then have "drop i a = a ! i # drop (Suc i) a"
      by (simp add: Cons_nth_drop_Suc)
    moreover from True obtain k where k: "l - i = Suc k" "l - Suc i = k"
      by (cases "l - i") auto
    ultimately have segs: "take (l - i) (drop i a) = a ! i # take (l - Suc i) (drop (Suc i) a)"
      by simp
    show ?thesis
    proof (cases "getDirectoryHandle dir (a ! i) create fs")
      case (Inl e)
      with True segs show ?thesis
        by (subst walk_loop.simps) simp
    next
      case (Inr r)
      obtain d' fs' where r: "r = (d', fs')" by (cases r)
      from True "1.prems" have "Suc i \<le> l" by simp
      from "1.IH"[OF True Inr r[symmetric] this "1.prems"(2)]
      have "walk_loop a create (Suc i) l d' fs' =
            traverse create d' (take (l - Suc i) (drop (Suc i) a)) fs'" .
      with True segs Inr r show ?thesis
        by (subst walk_loop.simps) simp
    qed
  qed
qed

lemma resolve_loop_two:
  "resolve_loop [arr, cur] [] False =
     (if arr = [] then cur else if hd arr = ROOT_NAME then arr else cur @ arr)"
  by (cases arr; cases cur) auto

lemma normalize_root:
  "\<exists>r. normalize (ROOT_NAME # ps) up = ROOT_NAME # r \<and> list_all real_segment r"
  using normalize_absolute_state[of up ps] by (auto simp: normalize_def abs_ok_def)

lemma resolvePath_ok:
  assumes "path_ok cur"
  shows "normalize (resolve_loop (rev [cur, (case p of Arr a \<Rightarrow> a | Str s \<Rightarrow> toArray s)]) [] False) True \<noteq> []
       \<and> resolvePath cur p = normalize (resolve_loop (rev [cur, (case p of Arr a \<Rightarrow> a | Str s \<Rightarrow> toArray s)]) [] False) True
       \<and> path_ok (resolvePath cur p)"
proof -
  let ?arr = "case p of Arr a \<Rightarrow> a | Str s \<Rightarrow> toArray s"
  from assms obtain r where cur: "cur = ROOT_NAME # r" by (auto simp: path_ok_iff)
  have "\<exists>ps. resolve_loop (rev [cur, ?arr]) [] False = ROOT_NAME # ps"
    by (cases ?arr) (auto simp: resolve_loop_two cur)
  then obtain ps where ps: "resolve_loop (rev [cur, ?arr]) [] False = ROOT_NAME # ps" by blast
  from normalize_root[of ps True] obtain q
    where q: "normalize (ROOT_NAME # ps) True = ROOT_NAME # q" "list_all real_segment q" by blast
  with ps show ?thesis
    by (simp add: resolvePath_def resolve_def path_ok_iff)
qed

lemma resolvePath_path_ok: "path_ok cur \<Longrightarrow> path_ok (resolvePath cur p)"
  using resolvePath_ok by blast

lemma resolve_nonempty: "resolve args \<noteq> []"
  by (simp add: resolve_def Let_def)

lemma getDir_traverse:
  "getDir this p create fs =
     (if prefix (path (current this)) (resolvePath (path (current this)) p)
      then traverse create (handle (current this))
             (drop (length (path (current this))) (resolvePath (path (current this)) p)) fs
      else traverse create (rootHandle this) (drop 1 (resolvePath (path (current this)) p)) fs)"
proof -
  let ?cur = "path (current this)"
  let ?a = "resolvePath ?cur p"
  have ne: "1 \<le> length ?a"
    using resolve_nonempty[of "[?cur, (case p of Arr a \<Rightarrow> a | Str s \<Rightarrow> toArray s)]"]
    by (cases ?a) (auto simp: resolvePath_def)
  show ?thesis
  proof (cases "prefix ?cur ?a")
    case True
    then have "length ?cur \<le> length ?a" by (rule prefix_length_le)
    from walk_loop_traverse[OF this order_refl, of create "handle (current this)" fs] True
    show ?thesis by (simp add: getDir_def isChildOrEqual_prefix Let_def)
  next
    case False
    from walk_loop_traverse[OF ne order_refl, of create "rootHandle this" fs] False
    show ?thesis by (simp add: getDir_def isChildOrEqual_prefix Let_def)
  qed
qed

text \<open>
  C1: \<open>getDir\<close> resolves the argument against the current path. When the current
  path is a prefix of the target, the walk starts at the cached current handle and
  requests the segments of the target from index \<open>current.path.length\<close> on;
  otherwise it starts at the root handle and requests every segment from index 1. When
  the current path is absolute and normalized, the target is absolute.
\<close>

theorem getDir_walk:
  "getDir this p create fs =
     (if prefix (path (current this)) (resolvePath (path (current this)) p)
      then traverse create (handle (current this))
             (drop (length (path (current this))) (resolvePath (path (current this)) p)) fs
      else traverse create (rootHandle this) (drop 1 (resolvePath (path (current this)) p)) fs)
   \<and> (path_ok (path (current this)) \<longrightarrow>
        1 \<le> length (resolvePath (path (current this)) p)
        \<and> hd (resolvePath (path (current this)) p) = ROOT_NAME)"
proof (rule conjI)
  show "getDir this p create fs =
     (if prefix (path (current this)) (resolvePath (path (current this)) p)
      then traverse create (handle (current this))
             (drop (length (path (current this))) (resolvePath (path (current this)) p)) fs
      else traverse create (rootHandle this) (drop 1 (resolvePath (path (current this)) p)) fs)"
    by (rule getDir_traverse)
next
  show "path_ok (path (current this)) \<longrightarrow>
        1 \<le> length (resolvePath (path (current this)) p)
        \<and> hd (resolvePath (path (current this)) p) = ROOT_NAME"
  proof
    assume "path_ok (path (current this))"
    then have "path_ok (resolvePath (path (current this)) p)"
      using resolvePath_ok by blast
    then show "1 \<le> length (resolvePath (path (current this)) p)
        \<and> hd (resolvePath (path (current this)) p) = ROOT_NAME"
      unfolding path_ok_def by blast
  qed
qed

theorem getDir_walk_witness:
  "getDir \<lparr>rootHandle = [], current = \<lparr>handle = [''projects''], path = [ROOT_NAME, ''projects'']\<rparr>\<rparr>
     (Str ''../notes'') False
     [([], Directory), ([''projects''], Directory), ([''notes''], Directory)]
   = Inr ([''notes''], [([], Directory), ([''projects''], Directory), ([''notes''], Directory)])
   \<and> hd (resolvePath [ROOT_NAME, ''projects''] (Str ''../notes'')) = ROOT_NAME"
proof -
  have r: "resolvePath [ROOT_NAME, ''projects''] (Str ''../notes'') = [ROOT_NAME, ''notes'']"
    by code_simp
  have ok: "path_ok [ROOT_NAME, ''projects'']"
    by (simp add: path_ok_def ROOT_NAME_def)
  show ?thesis
    using getDir_walk[of "\<lparr>rootHandle = [], current = \<lparr>handle = [''projects''], path = [ROOT_NAME, ''projects'']\<rparr>\<rparr>"
      "Str ''../notes''" False "[([], Directory), ([''projects''], Directory), ([''notes''], Directory)]"]
      r ok
    by (simp add: getDirectoryHandle_def valid_name_def)
qed

lemma getFile_traverse:
  "getFile this p create fs =
     (case (if prefix (path (current this)) (resolvePath (path (current this)) p)
            then traverse create (handle (current this))
                   (take (length (resolvePath (path (current this)) p) - 1 - length (path (current this)))
                      (drop (length (path (current this))) (resolvePath (path (current this)) p))) fs
            else traverse create (rootHandle this)
                   (butlast (drop 1 (resolvePath (path (current this)) p))) fs) of
        Inl e \<Rightarrow> Inl e
      | Inr (dir, fs') \<Rightarrow> getFileHandle dir (last (resolvePath (path (current this)) p)) create fs')"
proof -
  let ?cur = "path (current this)"
  let ?a = "resolvePath ?cur p"
  have ne: "1 \<le> length ?a"
    using resolve_nonempty[of "[?cur, (case p of Arr a \<Rightarrow> a | Str s \<Rightarrow> toArray s)]"]
    by (cases ?a) (auto simp: resolvePath_def)
  show ?thesis
  proof (cases "prefix ?cur ?a")
    case True
    then have le: "length ?cur \<le> length ?a" by (rule prefix_length_le)
    show ?thesis
    proof (cases "length ?cur \<le> length ?a - 1")
      case True
      from walk_loop_traverse[OF this, of ?a create "handle (current this)" fs] \<open>prefix ?cur ?a\<close>
      show ?thesis by (simp add: getFile_def isChildOrEqual_prefix Let_def)
    next
      case False
      then have "walk_loop ?a create (length ?cur) (length ?a - 1) (handle (current this)) fs
                 = Inr (handle (current this), fs)"
        by (subst walk_loop.simps) simp
      with False \<open>prefix ?cur ?a\<close> show ?thesis
        by (simp add: getFile_def isChildOrEqual_prefix Let_def)
    qed
  next
    case False
    have "1 \<le> length ?a - 1 \<or> length ?a = 1" using ne by arith
    then show ?thesis
    proof
      assume "1 \<le> length ?a - 1"
      from walk_loop_traverse[OF this, of ?a create "rootHandle this" fs] False
      show ?thesis by (simp add: getFile_def isChildOrEqual_prefix butlast_conv_take Let_def)
    next
      assume l: "length ?a = 1"
      then have "walk_loop ?a create 1 (length ?a - 1) (rootHandle this) fs
                 = Inr (rootHandle this, fs)"
        by (subst walk_loop.simps) simp
      with False l show ?thesis
        by (simp add: getFile_def isChildOrEqual_prefix Let_def)
    qed
  qed
qed

text \<open>
  C7, at the input where it fails: the current directory is \<open>/a\<close> and the argument is
  \<open>/a\<close>. The target is \<open>/a\<close>, whose parent is the root; the loop makes no step and
  \<open>getFile\<close> requests \<open>a\<close> from the cached handle of \<open>/a\<close> itself, so it returns the
  file \<open>/a/a\<close>. Requested from the parent, \<open>a\<close> is a directory and the request
  fails.
\<close>

theorem getFile_current_not_parent:
  "resolvePath [ROOT_NAME, ''a''] (Str ''/a'') = [ROOT_NAME, ''a'']
   \<and> getFile \<lparr>rootHandle = [], current = \<lparr>handle = [''a''], path = [ROOT_NAME, ''a'']\<rparr>\<rparr>
       (Str ''/a'') False
       [([], Directory), ([''a''], Directory), ([''a'', ''a''], File ''x'')]
     = Inr ([''a'', ''a''], [([], Directory), ([''a''], Directory), ([''a'', ''a''], File ''x'')])
   \<and> getFileHandle [] ''a'' False
       [([], Directory), ([''a''], Directory), ([''a'', ''a''], File ''x'')]
     = Inl TypeMismatchError"
proof -
  have r: "resolvePath [ROOT_NAME, ''a''] (Str ''/a'') = [ROOT_NAME, ''a'']"
    by code_simp
  then show ?thesis
    by (simp add: getFile_traverse getFileHandle_def valid_name_def)
qed

lemma traverse_result:
  "traverse create dir names fs = Inr (d, fs') \<Longrightarrow> d = dir @ names \<and> (\<not> create \<longrightarrow> fs' = fs)"
proof (induction names arbitrary: dir fs)
  case Nil
  then show ?case by simp
next
  case (Cons n names)
  from Cons.prems obtain d1 fs1 where step: "getDirectoryHandle dir n create fs = Inr (d1, fs1)"
    and rest: "traverse create d1 names fs1 = Inr (d, fs')"
    by (auto split: sum.splits)
  from step have "d1 = dir @ [n]" "\<not> create \<longrightarrow> fs1 = fs"
    by (auto simp: getDirectoryHandle_def split: if_splits option.splits entry.splits)
  with Cons.IH[OF rest] show ?case by simp
qed

lemma getDir_paired:
  assumes ok: "path_ok (path (current this))" and pa: "paired this"
    and g: "getDir this p create fs = Inr (h, fs')"
  shows "h = rootHandle this @ tl (resolvePath (path (current this)) p)"
proof -
  let ?cur = "path (current this)"
  let ?a = "resolvePath ?cur p"
  from ok have cur_ne: "?cur \<noteq> []" by (auto simp: path_ok_iff)
  show ?thesis
  proof (cases "prefix ?cur ?a")
    case True
    then obtain zs where zs: "?a = ?cur @ zs" by (auto simp: prefix_def)
    from g True have "traverse create (handle (current this)) (drop (length ?cur) ?a) fs = Inr (h, fs')"
      by (simp add: getDir_traverse)
    from traverse_result[OF this] have "h = handle (current this) @ drop (length ?cur) ?a" by simp
    also have "\<dots> = rootHandle this @ tl ?cur @ zs"
      using pa zs by (simp add: paired_def)
    also have "tl ?cur @ zs = tl ?a" using zs cur_ne by simp
    finally show ?thesis .
  next
    case False
    with g have "traverse create (rootHandle this) (drop 1 ?a) fs = Inr (h, fs')"
      by (simp add: getDir_traverse)
    from traverse_result[OF this] show ?thesis by (simp add: drop_Suc)
  qed
qed

lemma cd_paired:
  assumes g: "getDir this p False fs = Inr (h, fs')"
    and ok: "path_ok (path (current this))" and pa: "paired this"
  shows "paired (fst (snd (cd this p fs)))"
proof -
  have h: "h = rootHandle this @ tl (resolvePath (path (current this)) p)"
    by (rule getDir_paired[OF ok pa g])
  have "cd this p fs =
          (Inr h, this\<lparr>current := \<lparr>handle = h, path = resolvePath (path (current this)) p\<rparr>\<rparr>, fs')"
    using g by (simp add: cd_def)
  then show ?thesis
    using h by (simp add: paired_def)
qed

text \<open>
  C8: when the walk of \<open>cd\<close> fails, the navigator is unchanged; when it succeeds,
  the handle becomes the walked handle and the path the resolution of the argument
  against the previous path, together; and if the previous pair was matched (and the
  path absolute and normalized), the new pair is.
\<close>

theorem cd_atomic:
  "(\<forall>e. getDir this p False fs = Inl e \<longrightarrow> cd this p fs = (Inl e, this, fs))
   \<and> (\<forall>h fs'. getDir this p False fs = Inr (h, fs') \<longrightarrow>
        cd this p fs =
          (Inr h, this\<lparr>current := \<lparr>handle = h, path = resolvePath (path (current this)) p\<rparr>\<rparr>, fs')
        \<and> (path_ok (path (current this)) \<and> paired this \<longrightarrow> paired (fst (snd (cd this p fs)))))"
proof -
  have a: "cd this p fs = (Inl e, this, fs)" if "getDir this p False fs = Inl e" for e
    using that by (simp add: cd_def)
  have b: "cd this p fs =
          (Inr h, this\<lparr>current := \<lparr>handle = h, path = resolvePath (path (current this)) p\<rparr>\<rparr>, fs')"
    if "getDir this p False fs = Inr (h, fs')" for h fs'
    using that by (simp add: cd_def)
  have c: "paired (fst (snd (cd this p fs)))"
    if "getDir this p False fs = Inr (h, fs')" "path_ok (path (current this))" "paired this" for h fs'
    using that by (rule cd_paired)
  from a b c show ?thesis by blast
qed

theorem cd_atomic_witness:
  "cd (constructor []) (Str ''/projects'') [([], Directory), ([''projects''], Directory)]
     = (Inr [''projects''],
        \<lparr>rootHandle = [], current = \<lparr>handle = [''projects''], path = [ROOT_NAME, ''projects'']\<rparr>\<rparr>,
        [([], Directory), ([''projects''], Directory)])
   \<and> paired (fst (snd (cd (constructor []) (Str ''/projects'') [([], Directory), ([''projects''], Directory)])))
   \<and> cd (constructor []) (Str ''/missing'') [([], Directory), ([''projects''], Directory)]
     = (Inl NotFoundError, constructor [], [([], Directory), ([''projects''], Directory)])"
proof -
  let ?fs = "[([], Directory), ([''projects''], Directory)]"
  have r: "resolvePath [ROOT_NAME] (Str ''/projects'') = [ROOT_NAME, ''projects'']"
    by code_simp
  have g1: "getDir (constructor []) (Str ''/projects'') False ?fs = Inr ([''projects''], ?fs)"
    by code_simp
  have g2: "getDir (constructor []) (Str ''/missing'') False ?fs = Inl NotFoundError"
    by code_simp
  have ok: "path_ok (path (current (constructor [])))"
    by (simp add: path_ok_def constructor_def)
  have pa: "paired (constructor [])"
    by (simp add: paired_def constructor_def)
  show ?thesis
    using cd_atomic[of "constructor []" "Str ''/projects''" ?fs]
      cd_atomic[of "constructor []" "Str ''/missing''" ?fs] g1 g2 ok pa r
    by (simp add: constructor_def paired_def)
qed

lemma after_op_ok:
  assumes "path_ok (path (current this))"
  shows "path_ok (path (current (after_op opn this fs)))"
proof (cases opn)
  case (Cd p)
  show ?thesis
  proof (cases "getDir this p False fs")
    case (Inl e)
    with Cd assms show ?thesis by (simp add: after_op_def cd_def)
  next
    case (Inr r)
    obtain h fs' where "r = (h, fs')" by (cases r)
    with Inr Cd resolvePath_path_ok[OF assms, of p] show ?thesis
      by (simp add: after_op_def cd_def)
  qed
qed (use assms in \<open>simp_all add: after_op_def\<close>)

lemma run_ops_ok:
  "path_ok (path (current this)) \<Longrightarrow> path_ok (path (current (run_ops ops this)))"
proof (induction ops arbitrary: this)
  case Nil
  then show ?case by simp
next
  case (Cons a ops)
  obtain opn fs where a: "a = (opn, fs)" by (cases a)
  from Cons.IH[OF after_op_ok[OF Cons.prems, of opn fs]] a show ?case by simp
qed

lemma after_op_Cd:
  "after_op (Cd p) this fs =
     (case getDir this p False fs of
        Inl e \<Rightarrow> this
      | Inr (h', fs') \<Rightarrow>
          this\<lparr>current := \<lparr>handle = h', path = resolvePath (path (current this)) p\<rparr>\<rparr>)"
  by (simp add: after_op_def cd_def split: sum.splits)

text \<open>
  C10: after construction and any sequence of public operations the current path is
  absolute and normalized; an operation other than \<open>cd\<close> leaves the navigator as it
  is; \<open>cd\<close> assigns the resolution of its argument against the previous path; and
  from an absolute normalized current path the resolution is absolute and normalized,
  the normalization inside \<open>resolve\<close> being non-empty, so that the \<open>['.']\<close>
  fallback is not taken.
\<close>

theorem current_path_invariant:
  "path_ok (path (current (run_ops ops (constructor h))))
   \<and> ((\<forall>p. opn \<noteq> Cd p) \<longrightarrow> after_op opn this fs = this)
   \<and> after_op (Cd p) this fs =
       (case getDir this p False fs of
          Inl e \<Rightarrow> this
        | Inr (h', fs') \<Rightarrow>
            this\<lparr>current := \<lparr>handle = h', path = resolvePath (path (current this)) p\<rparr>\<rparr>)
   \<and> (path_ok (path (current this)) \<longrightarrow>
        path_ok (resolvePath (path (current this)) p)
        \<and> normalize (resolve_loop (rev [path (current this),
              (case p of Arr a \<Rightarrow> a | Str s \<Rightarrow> toArray s)]) [] False) True \<noteq> [])"
proof -
  have "path_ok (path (current (constructor h)))"
    by (simp add: constructor_def path_ok_def)
  then have a: "path_ok (path (current (run_ops ops (constructor h))))"
    by (rule run_ops_ok)
  have b: "(\<forall>p. opn \<noteq> Cd p) \<longrightarrow> after_op opn this fs = this"
    by (cases opn) (simp_all add: after_op_def)
  have c: "path_ok (path (current this)) \<longrightarrow>
        path_ok (resolvePath (path (current this)) p)
        \<and> normalize (resolve_loop (rev [path (current this),
              (case p of Arr a \<Rightarrow> a | Str s \<Rightarrow> toArray s)]) [] False) True \<noteq> []"
    using resolvePath_ok[of "path (current this)" p] by blast
  from a b c after_op_Cd[of p this fs] show ?thesis by blast
qed

theorem current_path_invariant_witness:
  "path_ok (path (current (run_ops
       [(Cd (Str ''/projects''), [([], Directory), ([''projects''], Directory)]),
        (Pwd, []),
        (Cd (Str ''../..''), [([], Directory)])] (constructor []))))
   \<and> after_op Pwd (constructor []) [] = constructor []
   \<and> path_ok (resolvePath (path (current (constructor []))) (Str ''a/../..''))"
proof -
  have ok: "path_ok (path (current (constructor [])))"
    by (simp add: constructor_def path_ok_def)
  show ?thesis
    using current_path_invariant[of
        "[(Cd (Str ''/projects''), [([], Directory), ([''projects''], Directory)]),
          (Pwd, []), (Cd (Str ''../..''), [([], Directory)])]" "[]" Pwd "constructor []" "[]"
        "Str ''a/../..''"] ok
    by simp
qed

section \<open>Copying directories\<close>

lemma update_fixed:
  "strict_prefix orig k \<Longrightarrow> fixed orig (AList.update k v fs) = fixed orig fs"
  by (induction fs) (auto simp: fixed_def)

lemma strict_prefix_snoc: "prefix orig to \<Longrightarrow> strict_prefix orig (to @ [name])"
  by (auto simp: strict_prefix_def dest: prefix_length_le)

lemma getDirectoryHandle_fixed:
  assumes "prefix orig to" and "getDirectoryHandle to name create fs = Inr (d, fs1)"
  shows "d = to @ [name] \<and> fixed orig fs1 = fixed orig fs"
  using assms
  by (auto simp: getDirectoryHandle_def update_fixed strict_prefix_snoc
      split: if_splits option.splits entry.splits)

lemma getFileHandle_fixed:
  assumes "prefix orig to" and "getFileHandle to name create fs = Inr (d, fs1)"
  shows "d = to @ [name] \<and> fixed orig fs1 = fixed orig fs"
  using assms
  by (auto simp: getFileHandle_def update_fixed strict_prefix_snoc
      split: if_splits option.splits entry.splits)

lemma weight_fixed:
  "fixed orig fs' = fixed orig fs \<Longrightarrow> weight orig fs' t = weight orig fs t"
  by (cases t) (simp_all add: unvisited_def)

lemma weight_pos: "0 < weight orig fs t"
  by (cases t) simp_all

lemma length_filter_mono:
  "(\<And>x. x \<in> set xs \<Longrightarrow> P x \<Longrightarrow> Q x) \<Longrightarrow> length (filter P xs) \<le> length (filter Q xs)"
  by (induction xs) auto

lemma length_filter_strict:
  assumes "\<And>x. x \<in> set xs \<Longrightarrow> P x \<Longrightarrow> Q x" and "y \<in> set xs" and "Q y" and "\<not> P y"
  shows "length (filter P xs) < length (filter Q xs)"
  using assms
proof (induction xs)
  case Nil
  then show ?case by simp
next
  case (Cons x xs)
  have mono: "length (filter P xs) \<le> length (filter Q xs)"
    by (rule length_filter_mono) (use Cons.prems(1) in auto)
  show ?case
  proof (cases "y = x")
    case True
    with Cons.prems mono show ?thesis by simp
  next
    case False
    with Cons.prems have "y \<in> set xs" by simp
    from Cons.IH[OF _ this Cons.prems(3,4)] Cons.prems(1)
    have "length (filter P xs) < length (filter Q xs)" by simp
    with Cons.prems(1)[of x] show ?thesis by auto
  qed
qed

lemma entries_child:
  assumes "entries dir fs = Inr es" and "(name, h) \<in> set es"
  shows "\<exists>c e. c = dir @ [name] \<and> (c, e) \<in> set fs
          \<and> h = (case e of Directory \<Rightarrow> DirectoryHandle c | File x \<Rightarrow> FileHandle c)"
proof -
  from assms obtain p e where pe: "(p, e) \<in> set fs" "p \<noteq> []" "butlast p = dir"
      "name = last p" "h = (case e of Directory \<Rightarrow> DirectoryHandle p | File x \<Rightarrow> FileHandle p)"
    by (auto simp: entries_def split: if_splits)
  from pe(2,3,4) have "p = dir @ [name]" by (metis append_butlast_last_id)
  with pe show ?thesis by blast
qed

text \<open>Yielding a child: the entries below the child, and the child, leave the count.\<close>

lemma unvisited_yield:
  assumes c: "(d @ [n], e) \<in> set fs" and new: "n \<notin> set ys" and out: "\<not> prefix orig d"
  shows "unvisited orig d (n # ys) fs + unvisited orig (d @ [n]) [] fs + 1 \<le> unvisited orig d ys fs"
proof -
  let ?c = "d @ [n]"
  let ?F = "fixed orig fs"
  let ?P = "\<lambda>(p, e). strict_prefix d p \<and> (\<forall>m \<in> set ys. \<not> prefix (d @ [m]) p)"
  let ?A = "\<lambda>(p, e :: entry). prefix ?c p"
  from out have nc: "\<not> strict_prefix orig ?c"
    by (auto simp: strict_prefix_def)
  with c have cF: "(?c, e) \<in> set ?F" by (simp add: fixed_def)
  have split: "length (filter ?P ?F) =
      length (filter (\<lambda>x. ?P x \<and> \<not> ?A x) ?F) + length (filter (\<lambda>x. ?P x \<and> ?A x) ?F)"
  proof -
    have "length (filter ?P ?F) =
          length (filter (\<lambda>x. \<not> ?A x) (filter ?P ?F)) + length (filter ?A (filter ?P ?F))"
      using sum_length_filter_compl[of ?A "filter ?P ?F"] by simp
    then show ?thesis by (simp add: conj_commute)
  qed
  have left: "filter (\<lambda>x. ?P x \<and> \<not> ?A x) ?F =
              filter (\<lambda>(p, e). strict_prefix d p \<and> (\<forall>m \<in> set (n # ys). \<not> prefix (d @ [m]) p)) ?F"
    by (rule filter_cong) auto
  have inner: "?P x" if "?A x" for x :: "locator \<times> entry"
  proof -
    obtain p e' where x: "x = (p, e')" by (cases x)
    with that obtain zs where p: "p = d @ n # zs" by (auto simp: prefix_def)
    with new have "\<forall>m \<in> set ys. \<not> prefix (d @ [m]) p" by auto
    moreover from p have "strict_prefix d p" by (simp add: strict_prefix_def)
    ultimately show ?thesis using x by simp
  qed
  then have right: "filter (\<lambda>x. ?P x \<and> ?A x) ?F = filter ?A ?F"
    by (intro filter_cong) auto
  have "length (filter (\<lambda>(p, e). strict_prefix ?c p \<and> (\<forall>m \<in> set []. \<not> prefix (?c @ [m]) p)) ?F)
        < length (filter ?A ?F)"
    by (rule length_filter_strict[where y = "(?c, e)"]) (use cF in \<open>auto simp: strict_prefix_def\<close>)
  with split left right show ?thesis
    by (simp add: unvisited_def)
qed


lemma find_entry:
  assumes "find (\<lambda>(name, h). name \<notin> set ys) es = Some (name, h)"
  shows "(name, h) \<in> set es \<and> name \<notin> set ys"
proof -
  from assms obtain i where "i < length es" "es ! i = (name, h)" "name \<notin> set ys"
    by (auto simp: find_Some_iff)
  then show ?thesis by (metis nth_mem)
qed

lemma yielded_child:
  assumes es: "entries d fs = Inr es"
    and f: "find (\<lambda>(name, h). name \<notin> set ys) es = Some (name, h)"
  shows "name \<notin> set ys \<and> (\<exists>e. (d @ [name], e) \<in> set fs
          \<and> h = (case e of Directory \<Rightarrow> DirectoryHandle (d @ [name]) | File x \<Rightarrow> FileHandle (d @ [name])))"
  using entries_child[OF es] find_entry[OF f] by blast

lemma step_task_CopyDirHelper:
  assumes ok: "\<not> prefix orig d" "prefix orig t"
    and st: "step_task (CopyDirHelper d t orig ys) fs = (err, ts, fs')"
  shows "list_all (task_ok orig) ts \<and> fs' = fs
       \<and> sum_list (map (weight orig fs) ts) < weight orig fs (CopyDirHelper d t orig ys)"
proof (cases "entries d fs")
  case (Inl e)
  with st show ?thesis by auto
next
  case (Inr es)
  show ?thesis
  proof (cases "find (\<lambda>(name, h). name \<notin> set ys) es")
    case None
    with Inr st show ?thesis by auto
  next
    case (Some a)
    obtain name h where a: "a = (name, h)" by (cases a)
    from yielded_child[OF Inr Some[unfolded a]] obtain e
      where new: "name \<notin> set ys" and c: "(d @ [name], e) \<in> set fs"
        and h: "h = (case e of Directory \<Rightarrow> DirectoryHandle (d @ [name]) | File x \<Rightarrow> FileHandle (d @ [name]))"
      by blast
    from unvisited_yield[OF c new ok(1)]
    have u: "unvisited orig d (name # ys) fs + unvisited orig (d @ [name]) [] fs + 1
             \<le> unvisited orig d ys fs" .
    from ok(1) have nc: "\<not> strict_prefix orig (d @ [name])"
      by (auto simp: strict_prefix_def)
    show ?thesis
    proof (cases e)
      case Directory
      with h Inr Some a st
      have "ts = [CopyDirHelper d t orig (name # ys), IsSameEntry (d @ [name]) name t orig]" "fs' = fs"
        by auto
      with ok nc u show ?thesis by simp
    next
      case (File x)
      with h Inr Some a st
      have "ts = [CopyDirHelper d t orig (name # ys), GetFileHandle (d @ [name]) name t]" "fs' = fs"
        by auto
      with ok u show ?thesis by simp
    qed
  qed
qed

lemma step_task_decreases:
  assumes ok: "task_ok orig t" and st: "step_task t fs = (err, ts, fs')"
  shows "list_all (task_ok orig) ts \<and> fixed orig fs' = fixed orig fs
       \<and> sum_list (map (weight orig fs) ts) < weight orig fs t"
proof (cases t)
  case (CopyDirHelper d to ot ys)
  with ok have "\<not> prefix orig d" "prefix orig to" "ot = orig" by simp_all
  with step_task_CopyDirHelper[of orig d to ys fs err ts fs'] st CopyDirHelper
  show ?thesis by simp
next
  case (IsSameEntry h n to ot)
  with ok st show ?thesis
    by (auto simp: isSameEntry_def strict_prefix_def split: if_splits)
next
  case (GetDirectoryHandle h n to ot)
  with ok have o: "ot = orig" "\<not> prefix orig h" "prefix orig to" by simp_all
  show ?thesis
  proof (cases "getDirectoryHandle to n True fs")
    case (Inl e)
    with st GetDirectoryHandle show ?thesis by auto
  next
    case (Inr r)
    obtain d fs1 where r: "r = (d, fs1)" by (cases r)
    from getDirectoryHandle_fixed[OF o(3) Inr[unfolded r]]
    have "d = to @ [n]" "fixed orig fs1 = fixed orig fs" by simp_all
    with st GetDirectoryHandle Inr r o show ?thesis by auto
  qed
next
  case (GetFileHandle h n to)
  with ok have o: "prefix orig to" by simp
  show ?thesis
  proof (cases "getFileHandle to n True fs")
    case (Inl e)
    with st GetFileHandle show ?thesis by auto
  next
    case (Inr r)
    obtain f fs1 where r: "r = (f, fs1)" by (cases r)
    from getFileHandle_fixed[OF o Inr[unfolded r]]
    have "f = to @ [n]" "fixed orig fs1 = fixed orig fs" by simp_all
    with st GetFileHandle Inr r o show ?thesis by (auto simp: strict_prefix_snoc)
  qed
next
  case (CopyFileHelper h f)
  with ok st show ?thesis by (auto split: option.splits entry.splits)
next
  case (PipeTo c f)
  with ok st show ?thesis by (auto simp: update_fixed split: option.splits entry.splits)
qed

lemma sum_list_replace:
  fixes f :: "'a \<Rightarrow> nat"
  assumes "i < length xs"
  shows "sum_list (map f (take i xs @ ts @ drop (Suc i) xs)) + f (xs ! i)
         = sum_list (map f xs) + sum_list (map f ts)"
proof -
  from assms have "xs = take i xs @ xs ! i # drop (Suc i) xs" by (rule id_take_nth_drop)
  then have "sum_list (map f xs) = sum_list (map f (take i xs)) + f (xs ! i) + sum_list (map f (drop (Suc i) xs))"
    by (metis add.assoc map_append list.simps(9) sum_list.Cons sum_list_append)
  then show ?thesis by simp
qed

lemma list_all_replace:
  "list_all P xs \<Longrightarrow> list_all P ts \<Longrightarrow> list_all P (take i xs @ ts @ drop (Suc i) xs)"
  by (auto simp: list_all_iff dest: in_set_takeD in_set_dropD)

lemma step_quiet [simp]: "pending c = [] \<Longrightarrow> step k c = c"
  by (simp add: step_def)

lemma run_quiet [simp]: "pending c = [] \<Longrightarrow> run ks c = c"
  by (induction ks) simp_all

lemma step_decreases:
  assumes ok: "tasks_ok orig c" and ne: "pending c \<noteq> []"
  shows "tasks_ok orig (step k c) \<and> fixed orig (store (step k c)) = fixed orig (store c)
       \<and> total orig (step k c) < total orig c"
proof -
  let ?i = "k mod length (pending c)"
  let ?t = "pending c ! ?i"
  from ne have i: "?i < length (pending c)" by simp
  obtain err ts fs' where st: "step_task ?t (store c) = (err, ts, fs')" by (cases "step_task ?t (store c)")
  from ok i have "task_ok orig ?t" by (simp add: tasks_ok_def list_all_length)
  from step_task_decreases[OF this st]
  have a: "list_all (task_ok orig) ts" and b: "fixed orig fs' = fixed orig (store c)"
    and w: "sum_list (map (weight orig (store c)) ts) < weight orig (store c) ?t" by simp_all
  from ne st have s: "step k c = \<lparr>store = fs',
      pending = take ?i (pending c) @ ts @ drop (Suc ?i) (pending c),
      rejected = rejected c @ (case err of None \<Rightarrow> [] | Some e \<Rightarrow> [e])\<rparr>"
    by (simp add: step_def Let_def)
  have wf: "weight orig fs' = weight orig (store c)"
    using weight_fixed[OF b] by (intro ext)
  from sum_list_replace[OF i, of "weight orig (store c)" ts] w
  have "sum_list (map (weight orig (store c)) (take ?i (pending c) @ ts @ drop (Suc ?i) (pending c)))
        < sum_list (map (weight orig (store c)) (pending c))"
    by simp
  with s wf have "total orig (step k c) < total orig c" by (simp add: total_def)
  moreover have "tasks_ok orig (step k c)"
    unfolding tasks_ok_def s using ok a
    by (simp only: config.simps tasks_ok_def list_all_replace)
  ultimately show ?thesis using s b by simp
qed

lemma total_zero: "total orig c = 0 \<Longrightarrow> pending c = []"
proof (cases "pending c")
  case Nil
  then show ?thesis by simp
next
  case (Cons t ts)
  assume "total orig c = 0"
  with Cons weight_pos[of orig "store c" t] show ?thesis by (simp add: total_def)
qed

lemma run_terminates:
  "tasks_ok orig c \<Longrightarrow> total orig c \<le> length ks \<Longrightarrow> pending (run ks c) = []"
proof (induction ks arbitrary: c)
  case Nil
  then show ?case by (simp add: total_zero)
next
  case (Cons k ks)
  show ?case
  proof (cases "pending c = []")
    case True
    then show ?thesis by simp
  next
    case False
    from step_decreases[OF Cons.prems(1) False, of k] Cons.prems(2)
    have "tasks_ok orig (step k c)" "total orig (step k c) \<le> length ks" by simp_all
    from Cons.IH[OF this] show ?thesis by simp
  qed
qed

lemma run_tasks_ok: "tasks_ok orig c \<Longrightarrow> tasks_ok orig (run ks c)"
proof (induction ks arbitrary: c)
  case Nil
  then show ?case by simp
next
  case (Cons k ks)
  show ?case
  proof (cases "pending c = []")
    case True
    with Cons.prems show ?thesis by simp
  next
    case False
    from step_decreases[OF Cons.prems False, of k] Cons.IH show ?thesis by simp
  qed
qed

lemma unvisited_le: "unvisited orig d ys fs \<le> length fs"
proof -
  have "unvisited orig d ys fs \<le> length (fixed orig fs)"
    unfolding unvisited_def by (rule length_filter_le)
  also have "\<dots> \<le> length fs" unfolding fixed_def by (rule length_filter_le)
  finally show ?thesis .
qed

lemma changed_refl [simp]: "changed fs fs = {}"
  by (simp add: changed_def)

lemma changed_trans: "changed fs fs'' \<subseteq> changed fs fs' \<union> changed fs' fs''"
  by (auto simp: changed_def)

lemma changed_update: "changed fs (AList.update k v fs) \<subseteq> {k}"
  by (auto simp: changed_def update_conv')

lemma storage_ok_update:
  "storage_ok orig fs \<Longrightarrow> k \<noteq> orig \<Longrightarrow> storage_ok orig (AList.update k v fs)"
  by (simp add: storage_ok_def distinct_update update_conv')

lemma prefix_snoc_neq: "prefix orig to \<Longrightarrow> to @ [name] \<noteq> orig"
  by (auto dest: prefix_length_le)

lemma getDirectoryHandle_changed:
  assumes "getDirectoryHandle to name create fs = Inr (d, fs1)"
  shows "d = to @ [name] \<and> changed fs fs1 \<subseteq> {to @ [name]}
         \<and> (storage_ok orig fs \<longrightarrow> prefix orig to \<longrightarrow> storage_ok orig fs1)"
  using assms changed_update[of fs "to @ [name]" Directory]
  by (auto simp: getDirectoryHandle_def storage_ok_update prefix_snoc_neq split: if_splits option.splits entry.splits)

lemma getFileHandle_changed:
  assumes "getFileHandle to name create fs = Inr (d, fs1)"
  shows "d = to @ [name] \<and> changed fs fs1 \<subseteq> {to @ [name]}
         \<and> (storage_ok orig fs \<longrightarrow> prefix orig to \<longrightarrow> storage_ok orig fs1)"
  using assms changed_update[of fs "to @ [name]" "File []"]
  by (auto simp: getFileHandle_def storage_ok_update prefix_snoc_neq split: if_splits option.splits entry.splits)

lemma mirror_not_below_copy:
  assumes "k \<in> mirror dir (dir @ r) (dir @ r)"
  shows "\<not> prefix ((dir @ r) @ r) k"
proof
  assume p: "prefix ((dir @ r) @ r) k"
  from assms obtain s where s: "k = (dir @ r) @ s" "\<not> prefix (dir @ r) (dir @ s)"
    by (auto simp: mirror_def)
  from p s(1) have "prefix r s" by simp
  with s(2) show False by simp
qed

lemma file_not_orig:
  assumes "storage_ok orig fs" and "(c, File x) \<in> set fs"
  shows "c \<noteq> orig"
proof
  assume "c = orig"
  with assms have "distinct (map fst fs)" "(orig, File x) \<in> set fs"
    by (simp_all add: storage_ok_def)
  then have "map_of fs orig = Some (File x)" by (rule map_of_is_SomeI)
  with assms(1) show False by (simp add: storage_ok_def)
qed

lemma step_task_mirror_CopyDirHelper:
  assumes ok: "\<not> prefix orig d" and m: "d = dir @ s" "t = orig @ s" and sok: "storage_ok orig fs"
    and st: "step_task (CopyDirHelper d t orig ys) fs = (err, ts, fs')"
  shows "list_all (task_mirror dir orig) ts \<and> fs' = fs"
proof (cases "entries d fs")
  case (Inl e)
  with st show ?thesis by auto
next
  case (Inr es)
  show ?thesis
  proof (cases "find (\<lambda>(name, h). name \<notin> set ys) es")
    case None
    with Inr st show ?thesis by auto
  next
    case (Some a)
    obtain name h where a: "a = (name, h)" by (cases a)
    from yielded_child[OF Inr Some[unfolded a]] obtain e
      where c: "(d @ [name], e) \<in> set fs"
        and h: "h = (case e of Directory \<Rightarrow> DirectoryHandle (d @ [name]) | File x \<Rightarrow> FileHandle (d @ [name]))"
      by blast
    have here: "d @ [name] = dir @ s @ [name] \<and> t = orig @ s" using m by simp
    show ?thesis
    proof (cases e)
      case Directory
      with h Inr Some a st
      have "ts = [CopyDirHelper d t orig (name # ys), IsSameEntry (d @ [name]) name t orig]" "fs' = fs"
        by auto
      with m here show ?thesis by auto
    next
      case (File x)
      with c sok have "d @ [name] \<noteq> orig" by (auto dest: file_not_orig)
      with ok have np: "\<not> prefix orig (d @ [name])" by auto
      from File h Inr Some a st
      have "ts = [CopyDirHelper d t orig (name # ys), GetFileHandle (d @ [name]) name t]" "fs' = fs"
        by auto
      with m here np show ?thesis by auto
    qed
  qed
qed

lemma mirror_snoc:
  "\<not> prefix orig (dir @ s @ [n]) \<Longrightarrow> (orig @ s) @ [n] \<in> mirror dir orig orig"
proof -
  assume "\<not> prefix orig (dir @ s @ [n])"
  then have "s @ [n] \<noteq> [] \<and> (orig @ s) @ [n] = orig @ (s @ [n]) \<and> \<not> prefix orig (dir @ (s @ [n]))"
    by simp
  then show ?thesis unfolding mirror_def by blast
qed

lemma step_task_mirror:
  assumes ok: "task_ok orig t" and m: "task_mirror dir orig t" and sok: "storage_ok orig fs"
    and st: "step_task t fs = (err, ts, fs')"
  shows "list_all (task_mirror dir orig) ts \<and> storage_ok orig fs'
       \<and> changed fs fs' \<subseteq> mirror dir orig orig"
proof (cases t)
  case (CopyDirHelper d to ot ys)
  with ok m obtain s where "\<not> prefix orig d" "ot = orig" "d = dir @ s" "to = orig @ s" by auto
  with step_task_mirror_CopyDirHelper[of orig d dir s to fs ys err ts fs'] sok st CopyDirHelper
  show ?thesis by simp
next
  case (IsSameEntry h n to ot)
  with ok m st sok show ?thesis by (auto split: if_splits)
next
  case (GetDirectoryHandle h n to ot)
  with ok m obtain s where o: "ot = orig" "\<not> prefix orig h" "prefix orig to"
    and s: "h = dir @ s @ [n]" "to = orig @ s" by auto
  show ?thesis
  proof (cases "getDirectoryHandle to n True fs")
    case (Inl e)
    with st GetDirectoryHandle sok show ?thesis by auto
  next
    case (Inr r)
    obtain d fs1 where r: "r = (d, fs1)" by (cases r)
    from getDirectoryHandle_changed[OF Inr[unfolded r], of orig] sok o(3)
    have d: "d = to @ [n]" and ch: "changed fs fs1 \<subseteq> {to @ [n]}" and ok1: "storage_ok orig fs1"
      by simp_all
    from mirror_snoc[of orig dir s n] o(2) s have "to @ [n] \<in> mirror dir orig orig" by simp
    with ch have "changed fs fs1 \<subseteq> mirror dir orig orig" by blast
    moreover have "task_mirror dir orig (CopyDirHelper h d orig [])"
      using s d by (auto intro: exI[of _ "s @ [n]"])
    moreover from st GetDirectoryHandle Inr r o
    have "ts = [CopyDirHelper h d orig []]" "fs' = fs1" by auto
    ultimately show ?thesis using ok1 by simp
  qed
next
  case (GetFileHandle h n to)
  with ok m obtain s where o: "prefix orig to"
    and s: "h = dir @ s @ [n]" "to = orig @ s" "\<not> prefix orig h" by auto
  show ?thesis
  proof (cases "getFileHandle to n True fs")
    case (Inl e)
    with st GetFileHandle sok show ?thesis by auto
  next
    case (Inr r)
    obtain f fs1 where r: "r = (f, fs1)" by (cases r)
    from getFileHandle_changed[OF Inr[unfolded r], of orig] sok o
    have f: "f = to @ [n]" and ch: "changed fs fs1 \<subseteq> {to @ [n]}" and ok1: "storage_ok orig fs1"
      by simp_all
    from mirror_snoc[of orig dir s n] s have mem: "to @ [n] \<in> mirror dir orig orig" by simp
    with ch have "changed fs fs1 \<subseteq> mirror dir orig orig" by blast
    moreover from st GetFileHandle Inr r
    have "ts = [CopyFileHelper h f]" "fs' = fs1" by auto
    ultimately show ?thesis using f mem ok1 by simp
  qed
next
  case (CopyFileHelper h f)
  with ok m st sok show ?thesis by (auto split: option.splits entry.splits)
next
  case (PipeTo c f)
  with ok have "f \<noteq> orig" by (auto simp: strict_prefix_def)
  with PipeTo m st sok changed_update[of fs f "File c"] show ?thesis
    by (auto simp: storage_ok_update split: option.splits entry.splits)
qed

lemma step_mirrors:
  assumes "mirrors dir orig fs0 c"
  shows "mirrors dir orig fs0 (step k c)"
proof (cases "pending c = []")
  case True
  with assms show ?thesis by simp
next
  case False
  let ?i = "k mod length (pending c)"
  let ?t = "pending c ! ?i"
  from False have i: "?i < length (pending c)" by simp
  obtain err ts fs' where st: "step_task ?t (store c) = (err, ts, fs')" by (cases "step_task ?t (store c)")
  from assms have sok: "storage_ok orig (store c)" and ch: "changed fs0 (store c) \<subseteq> mirror dir orig orig"
    and oks: "list_all (task_ok orig) (pending c)" and ms: "list_all (task_mirror dir orig) (pending c)"
    by (simp_all add: mirrors_def)
  from oks i have ok: "task_ok orig ?t" by (simp add: list_all_length)
  from ms i have m: "task_mirror dir orig ?t" by (simp add: list_all_length)
  from step_task_decreases[OF ok st] have a: "list_all (task_ok orig) ts" by simp
  from step_task_mirror[OF ok m sok st]
  have b: "list_all (task_mirror dir orig) ts" and sok': "storage_ok orig fs'"
    and ch': "changed (store c) fs' \<subseteq> mirror dir orig orig" by simp_all
  from False st have s: "step k c = \<lparr>store = fs',
      pending = take ?i (pending c) @ ts @ drop (Suc ?i) (pending c),
      rejected = rejected c @ (case err of None \<Rightarrow> [] | Some e \<Rightarrow> [e])\<rparr>"
    by (simp add: step_def Let_def)
  from ch ch' changed_trans[of fs0 fs' "store c"]
  have "changed fs0 fs' \<subseteq> mirror dir orig orig" by blast
  with sok' list_all_replace[OF oks a, of ?i] list_all_replace[OF ms b, of ?i]
  show ?thesis unfolding mirrors_def s by simp
qed

lemma run_mirrors: "mirrors dir orig fs0 c \<Longrightarrow> mirrors dir orig fs0 (run ks c)"
  by (induction ks arbitrary: c) (simp_all add: step_mirrors)


lemma run_no_recursion_into_destination:
  assumes "tasks_ok orig c" and "CopyDirHelper d t ot ys \<in> set (pending (run ks c))"
  shows "\<not> prefix orig d"
proof -
  from run_tasks_ok[OF assms(1), of ks] assms(2)
  have "task_ok orig (CopyDirHelper d t ot ys)"
    unfolding tasks_ok_def list_all_iff by blast
  then show ?thesis by simp
qed

lemma copyDir_start:
  assumes src: "handle_or_getDir this src False fs = Inr (dir, fs0)"
    and dst: "handle_or_getDir this destination True fs0 = Inr (to, fs1)"
  shows "copyDir this src destination fs =
           Inr \<lparr>store = fs1,
                pending = (if dir = to then [] else [CopyDirHelper dir to to []]),
                rejected = []\<rparr>"
  using assms by (simp add: copyDir_def isSameEntry_def)

lemma start_total: "total to \<lparr>store = fs1, pending = [CopyDirHelper dir to to []], rejected = []\<rparr>
    \<le> 1 + 5 * length fs1"
  using unvisited_le[of to dir "[]" fs1] by (simp add: total_def)

text \<open>
  C9: when the destination is not above the source (it may lie inside the source tree),
  \<open>copyDir\<close> finishes under every interleaving of its promises: once \<open>1 + 5 * n\<close>
  operations have completed, \<open>n\<close> the number of entries of the storage, nothing is
  pending, whether operations have rejected or not. No loop of \<open>copyDirHelper\<close> ever
  runs on the destination or below it. In a storage that lists no locator twice and has
  the destination as a directory, every entry created or changed, at any moment of any
  interleaving, is at \<open>to @ s\<close> for a non-empty \<open>s\<close> whose source \<open>dir @ s\<close> is
  neither the destination nor below it; so with the destination inside the source nothing
  is written at or below the place where a copy of the destination itself would go.
\<close>

theorem copyDir_terminates:
  assumes src: "handle_or_getDir this src False fs = Inr (dir, fs0)"
    and dst: "handle_or_getDir this destination True fs0 = Inr (to, fs1)"
    and notabove: "\<not> strict_prefix to dir"
  shows "\<exists>c. copyDir this src destination fs = Inr c
     \<and> (\<forall>sched. 1 + 5 * length fs1 \<le> length sched \<longrightarrow> pending (run sched c) = [])
     \<and> (\<forall>sched d t ot ys. CopyDirHelper d t ot ys \<in> set (pending (run sched c)) \<longrightarrow>
           \<not> prefix to d)
     \<and> (storage_ok to fs1 \<longrightarrow>
          (\<forall>sched k. map_of (store (run sched c)) k \<noteq> map_of fs1 k \<longrightarrow>
             (\<exists>s. s \<noteq> [] \<and> k = to @ s \<and> \<not> prefix to (dir @ s)))
          \<and> (prefix dir to \<longrightarrow>
               (\<forall>sched k. prefix (to @ drop (length dir) to) k \<longrightarrow>
                  map_of (store (run sched c)) k = map_of fs1 k)))"
proof (cases "dir = to")
  case True
  let ?c = "\<lparr>store = fs1, pending = [], rejected = []\<rparr>"
  from copyDir_start[OF src dst] True have "copyDir this src destination fs = Inr ?c" by simp
  moreover have "run sched ?c = ?c" for sched by simp
  ultimately show ?thesis by simp
next
  case False
  let ?c = "\<lparr>store = fs1, pending = [CopyDirHelper dir to to []], rejected = []\<rparr>"
  from copyDir_start[OF src dst] False have c: "copyDir this src destination fs = Inr ?c" by simp
  from False notabove have np: "\<not> prefix to dir" by (auto simp: strict_prefix_def)
  then have ok: "tasks_ok to ?c" by (simp add: tasks_ok_def)
  have t1: "pending (run sched ?c) = []" if "1 + 5 * length fs1 \<le> length sched" for sched
    using run_terminates[OF ok, of sched] start_total[of to fs1 dir] that by simp
  have t2: "\<not> prefix to d" if "CopyDirHelper d t ot ys \<in> set (pending (run sched ?c))"
    for sched d t ot ys
    using run_no_recursion_into_destination[OF ok that] .
  have t3: "\<exists>s. s \<noteq> [] \<and> k = to @ s \<and> \<not> prefix to (dir @ s)"
    if sok: "storage_ok to fs1" and ch: "map_of (store (run sched ?c)) k \<noteq> map_of fs1 k" for sched k
  proof -
    have "mirrors dir to fs1 ?c"
      using sok np by (simp add: mirrors_def)
    then have "mirrors dir to fs1 (run sched ?c)" by (rule run_mirrors)
    with ch have "k \<in> mirror dir to to" by (auto simp: mirrors_def changed_def)
    then show ?thesis by (simp add: mirror_def)
  qed
  have t4: "map_of (store (run sched ?c)) k = map_of fs1 k"
    if sok: "storage_ok to fs1" and pre: "prefix dir to"
      and below: "prefix (to @ drop (length dir) to) k" for sched k
  proof (rule ccontr)
    assume ch: "map_of (store (run sched ?c)) k \<noteq> map_of fs1 k"
    from pre obtain r where r: "to = dir @ r" by (auto simp: prefix_def)
    from t3[OF sok ch] have "k \<in> mirror dir (dir @ r) (dir @ r)" by (simp add: mirror_def r)
    from mirror_not_below_copy[OF this] below r show False by simp
  qed
  from c t1 t2 t3 t4 show ?thesis by blast
qed

theorem copyDir_terminates_witness:
  "copyDir (constructor []) (Path (Str ''/a'')) (Path (Str ''/a/sub''))
     [([], Directory), ([''a''], Directory), ([''a'', ''sub''], Directory),
      ([''a'', ''f''], File ''data''), ([''a'', ''x''], Directory),
      ([''a'', ''x'', ''g''], File ''more'')]
   = Inr \<lparr>store = [([], Directory), ([''a''], Directory), ([''a'', ''sub''], Directory),
      ([''a'', ''f''], File ''data''), ([''a'', ''x''], Directory),
      ([''a'', ''x'', ''g''], File ''more'')],
      pending = [CopyDirHelper [''a''] [''a'', ''sub''] [''a'', ''sub''] []], rejected = []\<rparr>
   \<and> run (replicate 31 1) \<lparr>store = [([], Directory), ([''a''], Directory), ([''a'', ''sub''], Directory),
      ([''a'', ''f''], File ''data''), ([''a'', ''x''], Directory),
      ([''a'', ''x'', ''g''], File ''more'')],
      pending = [CopyDirHelper [''a''] [''a'', ''sub''] [''a'', ''sub''] []], rejected = []\<rparr>
     = \<lparr>store = [([], Directory), ([''a''], Directory), ([''a'', ''sub''], Directory),
      ([''a'', ''f''], File ''data''), ([''a'', ''x''], Directory),
      ([''a'', ''x'', ''g''], File ''more''), ([''a'', ''sub'', ''f''], File ''data''),
      ([''a'', ''sub'', ''x''], Directory), ([''a'', ''sub'', ''x'', ''g''], File ''more'')], pending = [], rejected = []\<rparr>
   \<and> map_of (store (run (replicate 31 1) \<lparr>store = [([], Directory), ([''a''], Directory), ([''a'', ''sub''], Directory),
      ([''a'', ''f''], File ''data''), ([''a'', ''x''], Directory),
      ([''a'', ''x'', ''g''], File ''more'')],
      pending = [CopyDirHelper [''a''] [''a'', ''sub''] [''a'', ''sub''] []], rejected = []\<rparr>)) [''a'', ''sub'', ''sub'']
     = map_of [([], Directory), ([''a''], Directory), ([''a'', ''sub''], Directory),
      ([''a'', ''f''], File ''data''), ([''a'', ''x''], Directory),
      ([''a'', ''x'', ''g''], File ''more'')] [''a'', ''sub'', ''sub'']"
proof -
  let ?nav = "constructor []"
  let ?fs = "[([], Directory), ([''a''], Directory), ([''a'', ''sub''], Directory),
      ([''a'', ''f''], File ''data''), ([''a'', ''x''], Directory),
      ([''a'', ''x'', ''g''], File ''more'')]"
  let ?c0 = "\<lparr>store = [([], Directory), ([''a''], Directory), ([''a'', ''sub''], Directory),
      ([''a'', ''f''], File ''data''), ([''a'', ''x''], Directory),
      ([''a'', ''x'', ''g''], File ''more'')],
      pending = [CopyDirHelper [''a''] [''a'', ''sub''] [''a'', ''sub''] []], rejected = []\<rparr>"
  let ?sched = "replicate 31 (1::nat)"
  have s: "handle_or_getDir ?nav (Path (Str ''/a'')) False ?fs = Inr ([''a''], ?fs)"
    by code_simp
  have d: "handle_or_getDir ?nav (Path (Str ''/a/sub'')) True ?fs = Inr ([''a'', ''sub''], ?fs)"
    by code_simp
  have c0: "copyDir ?nav (Path (Str ''/a'')) (Path (Str ''/a/sub'')) ?fs = Inr ?c0"
    by code_simp
  have r: "run ?sched ?c0 = \<lparr>store = [([], Directory), ([''a''], Directory), ([''a'', ''sub''], Directory),
      ([''a'', ''f''], File ''data''), ([''a'', ''x''], Directory),
      ([''a'', ''x'', ''g''], File ''more''), ([''a'', ''sub'', ''f''], File ''data''),
      ([''a'', ''sub'', ''x''], Directory), ([''a'', ''sub'', ''x'', ''g''], File ''more'')], pending = [], rejected = []\<rparr>"
    by code_simp
  have na: "\<not> strict_prefix [''a'', ''sub''] [''a'']"
    by simp
  have ok: "storage_ok [''a'', ''sub''] ?fs"
    by (simp add: storage_ok_def)
  have pre: "prefix [''a''] [''a'', ''sub'']"
    by simp
  have below: "prefix ([''a'', ''sub''] @ drop (length [''a'']) [''a'', ''sub'']) [''a'', ''sub'', ''sub'']"
    by simp
  have len: "1 + 5 * length ?fs \<le> length ?sched"
    by simp
  from copyDir_terminates[OF s d na] c0 obtain c where c: "c = ?c0"
    and q: "\<forall>sched. 1 + 5 * length ?fs \<le> length sched \<longrightarrow> pending (run sched c) = []"
    and m: "storage_ok [''a'', ''sub''] ?fs \<longrightarrow>
          (prefix [''a''] [''a'', ''sub''] \<longrightarrow>
               (\<forall>sched k. prefix ([''a'', ''sub''] @ drop (length [''a'']) [''a'', ''sub'']) k \<longrightarrow>
                  map_of (store (run sched c)) k = map_of ?fs k))"
    by auto
  from q len c have "pending (run ?sched ?c0) = []"
    by blast
  moreover from m ok pre below c
  have "map_of (store (run ?sched ?c0)) [''a'', ''sub'', ''sub''] = map_of ?fs [''a'', ''sub'', ''sub'']"
    by blast
  ultimately show ?thesis using c0 r by simp
qed

text \<open>
  A rejection ends its own chain only: \<open>/a/sub/x\<close> is a file, so the directory
  \<open>/a/x\<close> cannot be copied, and the file \<open>/a/f\<close> is copied all the same.
\<close>

lemma copyDir_rejection_example:
  "run (replicate 16 0)
     \<lparr>store = [([], Directory), ([''a''], Directory), ([''a'', ''sub''], Directory),
        ([''a'', ''x''], Directory), ([''a'', ''f''], File ''data''),
        ([''a'', ''sub'', ''x''], File ''old'')],
      pending = [CopyDirHelper [''a''] [''a'', ''sub''] [''a'', ''sub''] []], rejected = []\<rparr>
   = \<lparr>store = [([], Directory), ([''a''], Directory), ([''a'', ''sub''], Directory),
        ([''a'', ''x''], Directory), ([''a'', ''f''], File ''data''),
        ([''a'', ''sub'', ''x''], File ''old''), ([''a'', ''sub'', ''f''], File ''data'')],
      pending = [], rejected = [TypeMismatchError]\<rparr>"
  by code_simp

end
